theory Spec2Isabelle
  imports Complex_Main "HOL-Library.Multiset" "HOL-Library.Char_ord" "HOL-Library.List_Lexorder"
begin

section \<open>The chunk buffer (class VideoBuffer)\<close>

text \<open>
  A \<open>Blob\<close> is modelled by its bytes; \<open>blob.size\<close> is the length of the list and
  \<open>blob.slice(start, end)\<close> is \<open>blob_slice\<close>. Timestamps are readings of
  \<open>Date.now()\<close>, whole milliseconds since the epoch, modelled as natural numbers; every
  function that reads the clock takes the reading as an argument. JavaScript numbers are
  modelled exactly: byte counts as naturals, seconds and percentages as rationals.
\<close>

type_synonym Blob = "char list"

definition blob_slice :: "nat \<Rightarrow> nat \<Rightarrow> Blob \<Rightarrow> Blob" where
  "blob_slice start end' b = take (end' - start) (drop start b)"

record VideoChunk =
  blob :: Blob
  timestamp :: nat
  size_bytes :: nat
  duration :: rat

datatype CompressionLevel = CNone | CLow | CMedium | CHigh

record BufferConfig =
  maxSize :: nat
  maxDuration :: nat
  chunkInterval :: nat
  compressionLevel :: CompressionLevel
  autoFlush :: bool

record BufferStats =
  totalSize :: nat
  totalDuration :: rat
  chunkCount :: nat
  memoryUsage :: nat
  isNearLimit_flag :: bool

record VideoBuffer =
  chunks :: "VideoChunk list"
  config :: BufferConfig
  startTime :: nat
  recordingId :: string

text \<open>The constructor's defaults, overridden by the fields of the partial configuration.\<close>

record PartialBufferConfig =
  p_maxSize :: "nat option"
  p_maxDuration :: "nat option"
  p_chunkInterval :: "nat option"
  p_compressionLevel :: "CompressionLevel option"
  p_autoFlush :: "bool option"

definition no_config :: PartialBufferConfig where
  "no_config = \<lparr>p_maxSize = None, p_maxDuration = None, p_chunkInterval = None,
                 p_compressionLevel = None, p_autoFlush = None\<rparr>"

definition new_VideoBuffer :: "string \<Rightarrow> PartialBufferConfig \<Rightarrow> VideoBuffer" where
  "new_VideoBuffer rid c =
     \<lparr>chunks = [],
      config = \<lparr>maxSize = (case p_maxSize c of None \<Rightarrow> 100 * 1024 * 1024 | Some v \<Rightarrow> v),
                maxDuration = (case p_maxDuration c of None \<Rightarrow> 1800 | Some v \<Rightarrow> v),
                chunkInterval = (case p_chunkInterval c of None \<Rightarrow> 1000 | Some v \<Rightarrow> v),
                compressionLevel = (case p_compressionLevel c of None \<Rightarrow> CMedium | Some v \<Rightarrow> v),
                autoFlush = (case p_autoFlush c of None \<Rightarrow> True | Some v \<Rightarrow> v)\<rparr>,
      startTime = 0,
      recordingId = rid\<rparr>"

definition initialize :: "nat \<Rightarrow> VideoBuffer \<Rightarrow> VideoBuffer" where
  "initialize now b = b\<lparr>chunks := [], startTime := now\<rparr>"

text \<open>\<open>(now - this.startTime) / 1000\<close>, in seconds.\<close>

definition elapsed_seconds :: "nat \<Rightarrow> VideoBuffer \<Rightarrow> rat" where
  "elapsed_seconds now b = (of_nat now - of_nat (startTime b)) / 1000"

definition estimateMemoryUsage :: "VideoBuffer \<Rightarrow> nat" where
  "estimateMemoryUsage b =
     (let blobSize = foldl (\<lambda>sum chunk. sum + size_bytes chunk) 0 (chunks b);
          metadataOverhead = length (chunks b) * 100
      in blobSize + metadataOverhead)"

text \<open>
  The object literal that \<open>getStats\<close> returns, given the value \<open>nl\<close> of its nested call
  \<open>this.isNearLimit()\<close>.
\<close>

definition stats_record :: "nat \<Rightarrow> VideoBuffer \<Rightarrow> bool \<Rightarrow> BufferStats" where
  "stats_record now b nl =
     (let totalSize = foldl (\<lambda>sum chunk. sum + size_bytes chunk) 0 (chunks b);
          totalDuration = (if length (chunks b) > 0 then elapsed_seconds now b else 0)
      in \<lparr>totalSize = totalSize,
          totalDuration = totalDuration,
          chunkCount = length (chunks b),
          memoryUsage = estimateMemoryUsage b,
          isNearLimit_flag = nl\<rparr>)"

text \<open>The two comparisons of \<open>isNearLimit\<close>, given the statistics it obtained.\<close>

definition near_limit_of :: "BufferConfig \<Rightarrow> BufferStats \<Rightarrow> bool" where
  "near_limit_of c stats =
     (let sizeLimit = (of_nat (totalSize stats) \<ge> of_nat (maxSize c) * (8 / 10 :: rat));
          durationLimit = (totalDuration stats \<ge> of_nat (maxDuration c) * (8 / 10 :: rat))
      in sizeLimit \<or> durationLimit)"

datatype js_error = RangeError | IDBError

text \<open>
  \<open>getStats\<close> calls \<open>isNearLimit\<close> to fill the field \<open>isNearLimit\<close>, and
  \<open>isNearLimit\<close> starts by calling \<open>getStats\<close>. The first argument is the number of
  stack frames still available: a call made with none left raises the engine's
  \<open>RangeError\<close> (maximum call stack size exceeded), and neither method catches it.
\<close>

fun getStats :: "nat \<Rightarrow> nat \<Rightarrow> VideoBuffer \<Rightarrow> js_error + BufferStats"
  and isNearLimit :: "nat \<Rightarrow> nat \<Rightarrow> VideoBuffer \<Rightarrow> js_error + bool" where
  "getStats 0 now b = Inl RangeError"
| "getStats (Suc frames) now b =
     (case isNearLimit frames now b of
        Inl e \<Rightarrow> Inl e
      | Inr nl \<Rightarrow> Inr (stats_record now b nl))"
| "isNearLimit 0 now b = Inl RangeError"
| "isNearLimit (Suc frames) now b =
     (case getStats frames now b of
        Inl e \<Rightarrow> Inl e
      | Inr stats \<Rightarrow> Inr (near_limit_of (config b) stats))"

subsection \<open>The persistent store (IndexedDB object store \<open>chunks\<close>)\<close>

text \<open>
  The object store has key path \<open>id\<close>: it holds at most one record per \<open>id\<close>, and
  \<open>put\<close> replaces the record stored under the same key. The index \<open>recordingId\<close>
  returns the records of one recording in the order of their primary keys, which are
  strings.
\<close>

record StoredChunk =
  id_key :: string
  rec_recordingId :: string
  rec_blob :: Blob
  rec_timestamp :: nat
  rec_size :: nat
  rec_duration :: rat

type_synonym ObjectStore = "StoredChunk list"

definition store_put :: "StoredChunk \<Rightarrow> ObjectStore \<Rightarrow> ObjectStore" where
  "store_put r db =
     (if id_key r \<in> set (map id_key db)
      then map (\<lambda>x. if id_key x = id_key r then r else x) db
      else db @ [r])"

definition persisted :: "string \<Rightarrow> ObjectStore \<Rightarrow> StoredChunk list" where
  "persisted rid db = filter (\<lambda>r. rec_recordingId r = rid) db"

definition index_getAll :: "string \<Rightarrow> ObjectStore \<Rightarrow> StoredChunk list" where
  "index_getAll rid db = sort_key id_key (persisted rid db)"

text \<open>The template literal \<open>`${n}`\<close> for a whole number below \<open>10^21\<close>: its decimal digits.\<close>

definition digit_char :: "nat \<Rightarrow> char" where
  "digit_char n = ''0123456789'' ! n"

fun show_nat :: "nat \<Rightarrow> string" where
  "show_nat n = (if n < 10 then [digit_char n] else show_nat (n div 10) @ [digit_char (n mod 10)])"

declare show_nat.simps [simp del]

definition chunk_id :: "string \<Rightarrow> nat \<Rightarrow> string" where
  "chunk_id rid ts = rid @ ''_'' @ show_nat ts"

definition chunkData :: "string \<Rightarrow> VideoChunk \<Rightarrow> StoredChunk" where
  "chunkData rid chunk =
     \<lparr>id_key = chunk_id rid (timestamp chunk),
      rec_recordingId = rid,
      rec_blob = blob chunk,
      rec_timestamp = timestamp chunk,
      rec_size = size_bytes chunk,
      rec_duration = duration chunk\<rparr>"

definition to_chunk :: "StoredChunk \<Rightarrow> VideoChunk" where
  "to_chunk data =
     \<lparr>blob = rec_blob data, timestamp = rec_timestamp data,
      size_bytes = rec_size data, duration = rec_duration data\<rparr>"

text \<open>The loop of \<open>flushToIndexedDB\<close>: one \<open>put\<close> per chunk, in order.\<close>

definition flush_puts :: "string \<Rightarrow> VideoChunk list \<Rightarrow> ObjectStore \<Rightarrow> ObjectStore" where
  "flush_puts rid cs db = foldl (\<lambda>store chunk. store_put (chunkData rid chunk) store) db cs"

subsection \<open>The buffer at run time\<close>

text \<open>
  \<open>flushToIndexedDB\<close> and \<open>getAllChunks\<close> are asynchronous: each runs up to its next
  \<open>await\<close> and is resumed when the awaited IndexedDB request has settled, and between
  the two any other method may run. A pending call is a task, named by a number:
  \<^item> \<open>FlushOpening\<close>: a flush waiting for \<open>openIndexedDB()\<close>;
  \<^item> \<open>FlushPutting g i undo\<close>: a flush waiting for the \<open>put\<close> of element \<open>i\<close> of the array
    it iterates over; \<open>undo\<close> is the store as it was before the first \<open>put\<close> of its
    transaction, once there has been one;
  \<^item> \<open>GetOpening mem\<close> and \<open>GetReading mem\<close>: a \<open>getAllChunks\<close> waiting for
    \<open>openIndexedDB()\<close> and for \<open>index.getAll\<close>, holding its copy \<open>memoryChunks\<close>.

  The loop \<open>for (const chunk of this.chunks)\<close> iterates over the array object that
  \<open>this.chunks\<close> refers to when the loop starts, and sees what is pushed to that array
  meanwhile; \<open>this.chunks = []\<close> makes \<open>this.chunks\<close> refer to a new array. Arrays are
  therefore named by a generation number: \<open>chunks (buf m)\<close> is the content of the
  current array, of generation \<open>generation m\<close>, and \<open>frozen m g\<close> is the content of an
  earlier one, to which nothing is pushed any more.

  Transactions on the object store run one at a time, in the order of their creation
  (\<open>txqueue\<close>); a request succeeds or fails when its transaction has its turn. A failed
  request aborts its transaction, which undoes the transaction's writes.
\<close>

datatype task =
    FlushOpening
  | FlushPutting nat nat "ObjectStore option"
  | GetOpening "VideoChunk list"
  | GetReading "VideoChunk list"

datatype settlement = FlushResolved | FlushRejected | GetReturned "VideoChunk list"

record Runtime =
  buf :: VideoBuffer
  generation :: nat
  frozen :: "nat \<Rightarrow> VideoChunk list"
  idb :: ObjectStore
  tasks :: "nat \<rightharpoonup> task"
  txqueue :: "nat list"
  settled :: "nat \<rightharpoonup> settlement"
  nextTask :: nat

definition start_runtime :: "VideoBuffer \<Rightarrow> ObjectStore \<Rightarrow> Runtime" where
  "start_runtime b db =
     \<lparr>buf = b, generation = 0, frozen = (\<lambda>g. []), idb = db, tasks = Map.empty,
      txqueue = [], settled = Map.empty, nextTask = 0\<rparr>"

definition array_of :: "Runtime \<Rightarrow> nat \<Rightarrow> VideoChunk list" where
  "array_of m g = (if g = generation m then chunks (buf m) else frozen m g)"

text \<open>\<open>this.chunks = []\<close>.\<close>

definition reset_chunks :: "Runtime \<Rightarrow> Runtime" where
  "reset_chunks m =
     m\<lparr>frozen := (frozen m)(generation m := chunks (buf m)),
       generation := Suc (generation m),
       buf := (buf m)\<lparr>chunks := []\<rparr>\<rparr>"

definition spawn :: "task \<Rightarrow> Runtime \<Rightarrow> Runtime" where
  "spawn t m = m\<lparr>tasks := (tasks m)(nextTask m \<mapsto> t), nextTask := Suc (nextTask m)\<rparr>"

definition settle_task :: "nat \<Rightarrow> settlement \<Rightarrow> Runtime \<Rightarrow> Runtime" where
  "settle_task k r m = m\<lparr>tasks := (tasks m)(k := None), settled := (settled m)(k \<mapsto> r)\<rparr>"

definition has_turn :: "nat \<Rightarrow> Runtime \<Rightarrow> bool" where
  "has_turn k m = (case txqueue m of [] \<Rightarrow> False | q # qs \<Rightarrow> q = k)"

definition end_transaction :: "Runtime \<Rightarrow> Runtime" where
  "end_transaction m = m\<lparr>txqueue := tl (txqueue m)\<rparr>"

text \<open>
  \<open>flushToIndexedDB\<close>, from the call to its first \<open>await\<close>: with no chunk in memory it
  returns at once, otherwise it waits for the database.
\<close>

definition flushToIndexedDB :: "Runtime \<Rightarrow> Runtime" where
  "flushToIndexedDB m =
     (if length (chunks (buf m)) = 0
      then m\<lparr>settled := (settled m)(nextTask m \<mapsto> FlushResolved), nextTask := Suc (nextTask m)\<rparr>
      else spawn FlushOpening m)"

text \<open>
  The flush resumed after \<open>openIndexedDB()\<close>. If the database did not open, the error
  is rethrown. Otherwise the transaction is created and the loop starts on the current
  array: with no element it ends at once, otherwise the first \<open>put\<close> is requested.
\<close>

definition flush_opened :: "nat \<Rightarrow> bool \<Rightarrow> Runtime \<Rightarrow> Runtime" where
  "flush_opened k ok m =
     (if \<not> ok then settle_task k FlushRejected m
      else if length (chunks (buf m)) = 0 then settle_task k FlushResolved (reset_chunks m)
      else m\<lparr>tasks := (tasks m)(k \<mapsto> FlushPutting (generation m) 0 None),
             txqueue := txqueue m @ [k]\<rparr>)"

text \<open>
  The flush resumed after the \<open>put\<close> of element \<open>i\<close>, when its transaction has its turn.
  If the request failed, the transaction is undone and the error rethrown. Otherwise
  the record is in the store, and the loop goes on to the next element of its array, or,
  when there is none, ends: \<open>this.chunks = []\<close>, and the promise resolves.
\<close>

definition flush_put_done :: "nat \<Rightarrow> nat \<Rightarrow> nat \<Rightarrow> ObjectStore option \<Rightarrow> bool \<Rightarrow> Runtime \<Rightarrow> Runtime" where
  "flush_put_done k g i undo ok m =
     (if \<not> has_turn k m \<or> length (array_of m g) \<le> i then m
      else
        (let earlier = (case undo of None \<Rightarrow> idb m | Some db \<Rightarrow> db)
         in if \<not> ok
            then settle_task k FlushRejected (end_transaction (m\<lparr>idb := earlier\<rparr>))
            else
              (let m1 = m\<lparr>idb := store_put (chunkData (recordingId (buf m)) (array_of m g ! i)) (idb m)\<rparr>
               in if Suc i < length (array_of m g)
                  then m1\<lparr>tasks := (tasks m1)(k \<mapsto> FlushPutting g (Suc i) (Some earlier))\<rparr>
                  else settle_task k FlushResolved (reset_chunks (end_transaction m1)))))"

text \<open>
  \<open>addChunk\<close>. The chunk is pushed first; the limit check follows, and an exception
  from it leaves the chunk pushed. The flush that \<open>addChunk\<close> starts is not awaited.
\<close>

definition push_chunk :: "nat \<Rightarrow> Blob \<Rightarrow> Runtime \<Rightarrow> Runtime" where
  "push_chunk now bl m =
     (let chunk = \<lparr>blob = bl, timestamp = now, size_bytes = length bl,
                   duration = elapsed_seconds now (buf m)\<rparr>
      in m\<lparr>buf := (buf m)\<lparr>chunks := chunks (buf m) @ [chunk]\<rparr>\<rparr>)"

definition addChunk :: "nat \<Rightarrow> nat \<Rightarrow> Blob \<Rightarrow> Runtime \<Rightarrow> (js_error + unit) \<times> Runtime" where
  "addChunk frames now bl m =
     (let m1 = push_chunk now bl m
      in if autoFlush (config (buf m1))
         then (case isNearLimit frames now (buf m1) of
                 Inl e \<Rightarrow> (Inl e, m1)
               | Inr near \<Rightarrow> if near then (Inr (), flushToIndexedDB m1) else (Inr (), m1))
         else (Inr (), m1))"

text \<open>
  \<open>getAllChunks\<close>: the copy of the chunks in memory is taken at the call; the records
  are read when its transaction has its turn; with IndexedDB failing it returns the copy.
\<close>

definition merge_chunks :: "string \<Rightarrow> ObjectStore \<Rightarrow> VideoChunk list \<Rightarrow> VideoChunk list" where
  "merge_chunks rid db memoryChunks =
     (let dbChunks = index_getAll rid db;
          allChunks = map to_chunk dbChunks @ memoryChunks
      in sort_key timestamp allChunks)"

definition getAllChunks :: "Runtime \<Rightarrow> Runtime" where
  "getAllChunks m = spawn (GetOpening (chunks (buf m))) m"

definition get_opened :: "nat \<Rightarrow> VideoChunk list \<Rightarrow> bool \<Rightarrow> Runtime \<Rightarrow> Runtime" where
  "get_opened k memoryChunks ok m =
     (if \<not> ok then settle_task k (GetReturned memoryChunks) m
      else m\<lparr>tasks := (tasks m)(k \<mapsto> GetReading memoryChunks), txqueue := txqueue m @ [k]\<rparr>)"

definition get_read :: "nat \<Rightarrow> VideoChunk list \<Rightarrow> bool \<Rightarrow> Runtime \<Rightarrow> Runtime" where
  "get_read k memoryChunks ok m =
     (if \<not> has_turn k m then m
      else if \<not> ok then settle_task k (GetReturned memoryChunks) (end_transaction m)
      else settle_task k
             (GetReturned (merge_chunks (recordingId (buf m)) (idb m) memoryChunks))
             (end_transaction m))"

text \<open>Task \<open>k\<close> is resumed; \<open>ok\<close> says whether the request it awaited succeeded.\<close>

definition resume :: "nat \<Rightarrow> bool \<Rightarrow> Runtime \<Rightarrow> Runtime" where
  "resume k ok m =
     (case tasks m k of
        None \<Rightarrow> m
      | Some FlushOpening \<Rightarrow> flush_opened k ok m
      | Some (FlushPutting g i undo) \<Rightarrow> flush_put_done k g i undo ok m
      | Some (GetOpening memoryChunks) \<Rightarrow> get_opened k memoryChunks ok m
      | Some (GetReading memoryChunks) \<Rightarrow> get_read k memoryChunks ok m)"

text \<open>
  What happens to a buffer is a sequence of events: calls of its methods, each made by
  its own event handler (so an exception thrown by one call ends that handler only, and
  the buffer keeps what the call had done), and resumptions of pending tasks.
\<close>

datatype event = CallAddChunk nat Blob | CallFlush | CallGetAllChunks | Resume nat bool

fun step :: "nat \<Rightarrow> event \<Rightarrow> Runtime \<Rightarrow> Runtime" where
  "step frames (CallAddChunk now bl) m = snd (addChunk frames now bl m)"
| "step frames CallFlush m = flushToIndexedDB m"
| "step frames CallGetAllChunks m = getAllChunks m"
| "step frames (Resume k ok) m = resume k ok m"

definition run_events :: "nat \<Rightarrow> event list \<Rightarrow> Runtime \<Rightarrow> Runtime" where
  "run_events frames evs m = foldl (\<lambda>st e. step frames e st) m evs"

text \<open>What the call that became task \<open>k\<close> returned, if it was a \<open>getAllChunks\<close>.\<close>

definition returned :: "nat \<Rightarrow> Runtime \<Rightarrow> VideoChunk list option" where
  "returned k m = (case settled m k of Some (GetReturned cs) \<Rightarrow> Some cs | _ \<Rightarrow> None)"

subsection \<open>Awaited calls\<close>

text \<open>
  A caller that awaits a call makes no other call until it has settled: the events
  after the call are the resumptions of its task alone. For a flush these are one
  resumption for the database and one for each chunk, the requests succeeding; or,
  when request number \<open>j\<close> fails (number 0 opens the database, number \<open>j > 0\<close> is the
  \<open>j\<close>-th \<open>put\<close>), \<open>j\<close> successes and the failure. Resumptions of a task that has
  settled do nothing, so a failure named beyond the last request never happens.
  \<open>addChunk\<close> returns nothing to await, but a caller may wait until the flush it has
  started, if any, has settled; when it has started none, the resumptions name no
  task and do nothing.
\<close>

definition settle_events :: "nat \<Rightarrow> nat \<Rightarrow> nat option \<Rightarrow> event list" where
  "settle_events k n failing =
     (case failing of
        None \<Rightarrow> replicate (Suc n) (Resume k True)
      | Some j \<Rightarrow> replicate j (Resume k True) @ [Resume k False])"

definition undisturbed_flush :: "nat \<Rightarrow> nat option \<Rightarrow> Runtime \<Rightarrow> Runtime" where
  "undisturbed_flush frames failing m =
     run_events frames (settle_events (nextTask m) (length (chunks (buf m))) failing)
       (flushToIndexedDB m)"

datatype buffer_call = AddChunk nat Blob "nat option" | FlushToIndexedDB "nat option"

fun awaited_call :: "nat \<Rightarrow> buffer_call \<Rightarrow> Runtime \<Rightarrow> Runtime" where
  "awaited_call frames (AddChunk now bl failing) m =
     (let m1 = snd (addChunk frames now bl m)
      in run_events frames (settle_events (nextTask m) (length (chunks (buf m1))) failing) m1)"
| "awaited_call frames (FlushToIndexedDB failing) m = undisturbed_flush frames failing m"

definition awaited_calls :: "nat \<Rightarrow> buffer_call list \<Rightarrow> Runtime \<Rightarrow> Runtime" where
  "awaited_calls frames calls m = foldl (\<lambda>st c. awaited_call frames c st) m calls"

definition awaited_getAllChunks :: "nat \<Rightarrow> Runtime \<Rightarrow> VideoChunk list option" where
  "awaited_getAllChunks frames m =
     returned (nextTask m)
       (run_events frames [Resume (nextTask m) True, Resume (nextTask m) True] (getAllChunks m))"

fun add_time :: "buffer_call \<Rightarrow> nat list" where
  "add_time (AddChunk now bl failing) = [now]"
| "add_time (FlushToIndexedDB failing) = []"

definition add_times :: "buffer_call list \<Rightarrow> nat list" where
  "add_times calls = concat (map add_time calls)"

fun is_addChunk :: "buffer_call \<Rightarrow> bool" where
  "is_addChunk (AddChunk now bl failing) = True"
| "is_addChunk (FlushToIndexedDB failing) = False"

text \<open>
  What an awaited \<open>getAllChunks()\<close> returns, IndexedDB being readable, after a sequence
  of awaited calls on a buffer with nothing pending.
\<close>

definition chunks_after :: "nat \<Rightarrow> buffer_call list \<Rightarrow> Runtime \<Rightarrow> VideoChunk list option" where
  "chunks_after frames calls m = awaited_getAllChunks frames (awaited_calls frames calls m)"

definition quiescent :: "Runtime \<Rightarrow> bool" where
  "quiescent m \<longleftrightarrow> tasks m = Map.empty \<and> txqueue m = []"

subsection \<open>Auxiliary notions for the buffer's invariant\<close>

text \<open>
  The records of this recording carry the key built from their timestamp; the
  timestamps of a session are those of its persisted records and of its chunks in
  memory; the invariant of a session is that the store has one record per key, that
  its records of this recording are keyed canonically, and that all timestamps differ.
\<close>

definition canonical :: "string \<Rightarrow> ObjectStore \<Rightarrow> bool" where
  "canonical rid db \<longleftrightarrow> (\<forall>r\<in>set (persisted rid db). id_key r = chunk_id rid (rec_timestamp r))"

definition all_timestamps :: "VideoBuffer \<times> ObjectStore \<Rightarrow> nat list" where
  "all_timestamps st =
     (case st of (b, db) \<Rightarrow>
        map rec_timestamp (persisted (recordingId b) db) @ map timestamp (chunks b))"

definition session_inv :: "VideoBuffer \<times> ObjectStore \<Rightarrow> bool" where
  "session_inv st \<longleftrightarrow>
     (case st of (b, db) \<Rightarrow>
        distinct (map id_key db) \<and> canonical (recordingId b) db \<and> distinct (all_timestamps st))"

text \<open>The chunk with the timestamp of \<open>c\<close> that comes last in a list.\<close>

definition last_with :: "VideoChunk \<Rightarrow> VideoChunk list \<Rightarrow> VideoChunk" where
  "last_with c cs = last (filter (\<lambda>c'. timestamp c' = timestamp c) cs)"

subsection \<open>Concrete buffers\<close>

text \<open>
  A buffer without automatic flushing, initialised at time 1000; two chunks taken within
  the same millisecond and a third taken a millisecond later; run-time states that hold
  them, with nothing pending and an empty store; and sequences of calls and of events.
\<close>

definition manual_buffer :: VideoBuffer where
  "manual_buffer = initialize 1000 (new_VideoBuffer ''rec'' (no_config\<lparr>p_autoFlush := Some False\<rparr>))"

definition chunk_a :: VideoChunk where
  "chunk_a = \<lparr>blob = ''a'', timestamp = 1005, size_bytes = 1, duration = 5 / 1000\<rparr>"

definition chunk_b :: VideoChunk where
  "chunk_b = \<lparr>blob = ''bb'', timestamp = 1005, size_bytes = 2, duration = 5 / 1000\<rparr>"

definition chunk_c :: VideoChunk where
  "chunk_c = \<lparr>blob = ''ccc'', timestamp = 1006, size_bytes = 3, duration = 6 / 1000\<rparr>"

definition same_ms_runtime :: Runtime where
  "same_ms_runtime = start_runtime (manual_buffer\<lparr>chunks := [chunk_a, chunk_b]\<rparr>) []"

definition spaced_runtime :: Runtime where
  "spaced_runtime = start_runtime (manual_buffer\<lparr>chunks := [chunk_a, chunk_c]\<rparr>) []"

definition same_ms_calls :: "buffer_call list" where
  "same_ms_calls = [AddChunk 1005 ''a'' None, AddChunk 1005 ''bb'' None, FlushToIndexedDB None]"

definition spaced_calls :: "buffer_call list" where
  "spaced_calls =
     [AddChunk 2000 ''a'' None, AddChunk 2500 ''c'' None, FlushToIndexedDB (Some 2),
      FlushToIndexedDB None, AddChunk 3000 ''bb'' None]"

text \<open>
  One chunk is added and flushed, and \<open>getAllChunks()\<close> (task 1) is called before the
  flush (task 0) has settled.
\<close>

definition impatient_events :: "event list" where
  "impatient_events =
     [CallAddChunk 2000 ''a'', CallFlush, CallGetAllChunks,
      Resume 0 True, Resume 1 True, Resume 0 True, Resume 1 True]"

text \<open>
  One chunk is added and flushed twice (tasks 0 and 1), and a second chunk is added
  between the end of the first flush and the end of the second; then \<open>getAllChunks()\<close>
  (task 2) is called and awaited.
\<close>

definition overlapping_events :: "event list" where
  "overlapping_events =
     [CallAddChunk 2000 ''a'', CallFlush, CallFlush, Resume 0 True, Resume 1 True,
      Resume 0 True, CallAddChunk 3000 ''b'', Resume 1 True,
      CallGetAllChunks, Resume 2 True, Resume 2 True]"

text \<open>
  One chunk is added and its flush (task 0) awaited; then \<open>getAllChunks()\<close> (task 1) is
  called and the database does not open.
\<close>

definition unreadable_events :: "event list" where
  "unreadable_events =
     [CallAddChunk 2000 ''a'', CallFlush, Resume 0 True, Resume 0 True,
      CallGetAllChunks, Resume 1 False]"

section \<open>The upload orchestrator (class VideoUploadService)\<close>

record UploadConfig =
  chunkSize :: nat
  maxRetries :: nat
  timeout :: nat
  compressionQuality :: rat
  enableCompression :: bool

definition default_UploadConfig :: UploadConfig where
  "default_UploadConfig =
     \<lparr>chunkSize = 5 * 1024 * 1024, maxRetries = 3, timeout = 30000,
      compressionQuality = 8 / 10, enableCompression = False\<rparr>"

datatype UploadStatus = Pending | Uploading | Processing | Completed | Error | Cancelled

text \<open>
  The numbers of the two timing fields: a quotient of non-negative numbers, which in
  JavaScript is \<open>Infinity\<close> or \<open>NaN\<close> when the divisor is zero.
\<close>

datatype jsnum = Num rat | Infinity | NaN

fun js_div :: "jsnum \<Rightarrow> jsnum \<Rightarrow> jsnum" where
  "js_div NaN y = NaN"
| "js_div x NaN = NaN"
| "js_div Infinity Infinity = NaN"
| "js_div Infinity (Num b) = Infinity"
| "js_div (Num a) Infinity = Num 0"
| "js_div (Num a) (Num b) = (if b = 0 then (if a = 0 then NaN else Infinity) else Num (a / b))"

record UploadProgress =
  uploadId :: string
  bytesUploaded :: nat
  totalBytes :: nat
  percentage :: rat
  speed :: jsnum
  estimatedTimeRemaining :: jsnum
  status :: UploadStatus
  error :: "string option"

text \<open>\<open>Partial<UploadProgress>\<close>: the fields an update supplies.\<close>

record ProgressUpdates =
  u_uploadId :: "string option"
  u_bytesUploaded :: "nat option"
  u_totalBytes :: "nat option"
  u_percentage :: "rat option"
  u_speed :: "jsnum option"
  u_estimatedTimeRemaining :: "jsnum option"
  u_status :: "UploadStatus option"
  u_error :: "string option"

definition no_updates :: ProgressUpdates where
  "no_updates =
     \<lparr>u_uploadId = None, u_bytesUploaded = None, u_totalBytes = None, u_percentage = None,
      u_speed = None, u_estimatedTimeRemaining = None, u_status = None, u_error = None\<rparr>"

text \<open>
  What a \<open>throw\<close> throws: an \<open>Error\<close> object with its message, or some other value. The
  expression \<open>error instanceof Error ? error.message : fallback\<close> is \<open>error_message\<close>.
\<close>

datatype thrown = ErrorObject string | OtherValue

definition error_message :: "string \<Rightarrow> thrown \<Rightarrow> string" where
  "error_message fallback e = (case e of ErrorObject m \<Rightarrow> m | OtherValue \<Rightarrow> fallback)"

text \<open>
  The service holds two maps keyed by upload id. An \<open>AbortController\<close> is an object
  shared between the map and the running upload, so controllers live in a heap: the map
  holds addresses and \<open>aborted\<close> gives the flag \<open>signal.aborted\<close> at each address.

  A progress callback is code of the caller, identified by a number. \<open>delivered\<close> lists
  the calls made to callbacks, oldest first, and \<open>reaction cb hist e\<close> says what callback
  \<open>cb\<close> does when it is called with the event \<open>e\<close> after the calls \<open>hist\<close>: it returns
  (\<open>None\<close>) or it throws a value. The service calls a callback without any guard, so
  what a callback throws is thrown by \<open>updateProgress\<close>. Callbacks that call methods of
  the service themselves are not modelled.
\<close>

record Service =
  uploadConfig :: UploadConfig
  activeUploads :: "string \<rightharpoonup> nat"
  progressCallbacks :: "string \<rightharpoonup> nat"
  aborted :: "nat \<Rightarrow> bool"
  nextController :: nat
  delivered :: "(nat \<times> UploadProgress) list"
  reaction :: "nat \<Rightarrow> (nat \<times> UploadProgress) list \<Rightarrow> UploadProgress \<Rightarrow> thrown option"

text \<open>A new service, in a world whose callbacks behave as \<open>react\<close>.\<close>

definition new_VideoUploadService ::
  "UploadConfig \<Rightarrow> (nat \<Rightarrow> (nat \<times> UploadProgress) list \<Rightarrow> UploadProgress \<Rightarrow> thrown option) \<Rightarrow> Service" where
  "new_VideoUploadService c react =
     \<lparr>uploadConfig = c, activeUploads = Map.empty, progressCallbacks = Map.empty,
      aborted = (\<lambda>a. False), nextController = 0, delivered = [], reaction = react\<rparr>"

text \<open>The object \<open>currentProgress\<close> of \<open>updateProgress\<close>: the defaults, then the update.\<close>

definition currentProgress :: "string \<Rightarrow> ProgressUpdates \<Rightarrow> UploadProgress" where
  "currentProgress uid updates =
     \<lparr>uploadId = (case u_uploadId updates of None \<Rightarrow> uid | Some v \<Rightarrow> v),
      bytesUploaded = (case u_bytesUploaded updates of None \<Rightarrow> 0 | Some v \<Rightarrow> v),
      totalBytes = (case u_totalBytes updates of None \<Rightarrow> 0 | Some v \<Rightarrow> v),
      percentage = (case u_percentage updates of None \<Rightarrow> 0 | Some v \<Rightarrow> v),
      speed = (case u_speed updates of None \<Rightarrow> Num 0 | Some v \<Rightarrow> v),
      estimatedTimeRemaining =
        (case u_estimatedTimeRemaining updates of None \<Rightarrow> Num 0 | Some v \<Rightarrow> v),
      status = (case u_status updates of None \<Rightarrow> Pending | Some v \<Rightarrow> v),
      error = u_error updates\<rparr>"

text \<open>
  \<open>updateProgress\<close>: with a callback registered for the id, the callback is called with
  \<open>currentProgress\<close>; the first component is what the call threw, if it threw.
\<close>

definition updateProgress :: "string \<Rightarrow> ProgressUpdates \<Rightarrow> Service \<Rightarrow> thrown option \<times> Service" where
  "updateProgress uid updates s =
     (case progressCallbacks s uid of
        None \<Rightarrow> (None, s)
      | Some callback \<Rightarrow>
          (reaction s callback (delivered s) (currentProgress uid updates),
           s\<lparr>delivered := delivered s @ [(callback, currentProgress uid updates)]\<rparr>))"

definition cleanup :: "string \<Rightarrow> Service \<Rightarrow> Service" where
  "cleanup uid s =
     s\<lparr>activeUploads := (activeUploads s)(uid := None),
       progressCallbacks := (progressCallbacks s)(uid := None)\<rparr>"

definition abort :: "nat \<Rightarrow> Service \<Rightarrow> Service" where
  "abort controller s = s\<lparr>aborted := (aborted s)(controller := True)\<rparr>"

text \<open>
  \<open>cancelUpload\<close>: when the callback throws, the exception leaves \<open>cancelUpload\<close> before
  the clean-up.
\<close>

definition cancelUpload :: "string \<Rightarrow> Service \<Rightarrow> thrown option \<times> Service" where
  "cancelUpload uid s =
     (case activeUploads s uid of
        None \<Rightarrow> (None, s)
      | Some controller \<Rightarrow>
          (case updateProgress uid (no_updates\<lparr>u_status := Some Cancelled\<rparr>) (abort controller s) of
             (Some e, s1) \<Rightarrow> (Some e, s1)
           | (None, s1) \<Rightarrow> (None, cleanup uid s1)))"

definition isUploadActive :: "string \<Rightarrow> Service \<Rightarrow> bool" where
  "isUploadActive uid s \<longleftrightarrow> activeUploads s uid \<noteq> None"

subsection \<open>\<open>sanitizeFilename\<close>\<close>

text \<open>
  The three \<open>replace\<close> calls. The class \<open>[a-zA-Z0-9.-]\<close> is \<open>safe_char\<close>; the second
  pattern \<open>/__+/g\<close> turns every run of two or more underscores into one; the third,
  \<open>/^_|_$/g\<close>, removes an underscore at the start and one at the end.
\<close>

definition safe_char :: "char \<Rightarrow> bool" where
  "safe_char c \<longleftrightarrow>
     (CHR ''a'' \<le> c \<and> c \<le> CHR ''z'') \<or> (CHR ''A'' \<le> c \<and> c \<le> CHR ''Z'')
     \<or> (CHR ''0'' \<le> c \<and> c \<le> CHR ''9'') \<or> c = CHR ''.'' \<or> c = CHR ''-''"

definition replace_unsafe :: "string \<Rightarrow> string" where
  "replace_unsafe name = map (\<lambda>c. if safe_char c then c else CHR ''_'') name"

fun collapse_underscores :: "string \<Rightarrow> string" where
  "collapse_underscores (a # b # cs) =
     (if a = CHR ''_'' \<and> b = CHR ''_'' then collapse_underscores (b # cs)
      else a # collapse_underscores (b # cs))"
| "collapse_underscores cs = cs"

definition trim_underscores :: "string \<Rightarrow> string" where
  "trim_underscores name =
     (let s1 = (case name of [] \<Rightarrow> [] | c # cs \<Rightarrow> if c = CHR ''_'' then cs else name)
      in if s1 \<noteq> [] \<and> last s1 = CHR ''_'' then butlast s1 else s1)"

definition sanitizeFilename :: "string \<Rightarrow> string" where
  "sanitizeFilename filename = trim_underscores (collapse_underscores (replace_unsafe filename))"

subsection \<open>\<open>uploadVideo\<close> and its two strategies\<close>

text \<open>
  \<open>uploadVideo\<close> is asynchronous. What the outside world does while it is suspended is
  given by an environment: the upload id that \<open>generateUploadId\<close> produced, the user that
  \<open>getUser\<close> resolved (none when it reports an error or no user), the time stamp of the
  path, the outcome of the storage call, the clock differences used for the speed, and,
  for each point where the upload is suspended, whether \<open>cancelUpload\<close> is called on
  this upload meanwhile. Such a call is made by other code: what it throws goes to its
  own caller, not to the upload.
\<close>

datatype storage_outcome = Stored | StorageError thrown

datatype await_point = AwaitGetUser | AwaitChunkDelay nat | AwaitStorageUpload | AwaitStoreMetadata

record UploadEnv =
  generatedUploadId :: string
  authUser :: "string option"
  isoTimestamp :: string
  storageUpload :: storage_outcome
  directMillis :: nat
  elapsedMillis :: "nat \<Rightarrow> nat"
  cancelDuring :: "await_point \<Rightarrow> bool"

definition at_await :: "UploadEnv \<Rightarrow> await_point \<Rightarrow> string \<Rightarrow> Service \<Rightarrow> Service" where
  "at_await env p uid s = (if cancelDuring env p then snd (cancelUpload uid s) else s)"

datatype StrategyResult = StrategyOk | StrategyFailed string

text \<open>
  The update that \<open>directUpload\<close> sends once the storage call has succeeded. Both
  strategies catch whatever is thrown inside them, also by a callback, and return it as
  a failure.
\<close>

definition direct_update :: "UploadEnv \<Rightarrow> Blob \<Rightarrow> ProgressUpdates" where
  "direct_update env bl =
     (let millis = directMillis env;
          speed' = js_div (Num (of_nat (length bl))) (Num (of_nat millis / 1000))
      in no_updates\<lparr>u_bytesUploaded := Some (length bl), u_percentage := Some 100,
           u_speed := Some speed', u_estimatedTimeRemaining := Some (Num 0)\<rparr>)"

definition directUpload ::
  "UploadEnv \<Rightarrow> string \<Rightarrow> Blob \<Rightarrow> string \<Rightarrow> nat \<Rightarrow> Service \<Rightarrow> StrategyResult \<times> Service" where
  "directUpload env uid bl filePath signal s =
     (let s1 = at_await env AwaitStorageUpload uid s
      in case storageUpload env of
           StorageError e \<Rightarrow> (StrategyFailed (error_message ''Upload failed'' e), s1)
         | Stored \<Rightarrow>
             (case updateProgress uid (direct_update env bl) s1 of
                (Some e, s2) \<Rightarrow> (StrategyFailed (error_message ''Upload failed'' e), s2)
              | (None, s2) \<Rightarrow> (StrategyOk, s2)))"

text \<open>
  \<open>Math.ceil(totalSize / chunkSize)\<close>. With a chunk size of 0 the quotient is \<open>NaN\<close> for an
  empty blob (the loops then do not run) and \<open>Infinity\<close> otherwise; \<open>None\<close> stands for
  \<open>Infinity\<close>, with which the loop that builds the chunks does not end.
\<close>

definition totalChunks_of :: "nat \<Rightarrow> nat \<Rightarrow> nat option" where
  "totalChunks_of tsize csize =
     (if csize = 0 then (if tsize = 0 then Some 0 else None)
      else Some ((tsize + csize - 1) div csize))"

definition slice_chunks :: "nat \<Rightarrow> nat \<Rightarrow> Blob \<Rightarrow> Blob list" where
  "slice_chunks totalChunks csize bl =
     map (\<lambda>i. let start = i * csize; end' = min (start + csize) (length bl)
              in blob_slice start end' bl) [0..<totalChunks]"

text \<open>
  The update sent after simulated chunk \<open>i\<close>, when \<open>uploaded\<close> bytes count as sent. The
  uploaded bytes never exceed the total, so the remaining bytes are a natural number;
  the loop runs only for a non-empty blob, so the percentage has a non-zero divisor.
\<close>

definition chunk_update :: "UploadEnv \<Rightarrow> nat \<Rightarrow> nat \<Rightarrow> nat \<Rightarrow> ProgressUpdates" where
  "chunk_update env tsize i uploaded =
     (let elapsedTime = of_nat (elapsedMillis env i) / 1000;
          speed' = js_div (Num (of_nat uploaded)) (Num elapsedTime);
          remainingBytes = tsize - uploaded;
          remaining = js_div (Num (of_nat remainingBytes)) speed'
      in no_updates\<lparr>u_bytesUploaded := Some uploaded,
           u_percentage := Some (of_nat uploaded / of_nat tsize * 100),
           u_speed := Some speed', u_estimatedTimeRemaining := Some remaining\<rparr>)"

text \<open>The loop that simulates progress, from chunk \<open>i\<close> on.\<close>

fun simulate_chunks ::
  "UploadEnv \<Rightarrow> string \<Rightarrow> nat \<Rightarrow> nat \<Rightarrow> nat \<Rightarrow> nat \<Rightarrow> Blob list \<Rightarrow> Service
     \<Rightarrow> (thrown + unit) \<times> Service" where
  "simulate_chunks env uid signal tsize i uploadedBytes [] s = (Inr (), s)"
| "simulate_chunks env uid signal tsize i uploadedBytes (chunk # rest) s =
     (if aborted s signal then (Inl (ErrorObject ''Upload cancelled''), s)
      else
        (let s1 = at_await env (AwaitChunkDelay i) uid s;
             uploaded = uploadedBytes + length chunk
         in case updateProgress uid (chunk_update env tsize i uploaded) s1 of
              (Some e, s2) \<Rightarrow> (Inl e, s2)
            | (None, s2) \<Rightarrow> simulate_chunks env uid signal tsize (Suc i) uploaded rest s2))"

definition chunkedUpload ::
  "UploadEnv \<Rightarrow> string \<Rightarrow> Blob \<Rightarrow> string \<Rightarrow> nat \<Rightarrow> Service
     \<Rightarrow> (StrategyResult \<times> Service) option" where
  "chunkedUpload env uid bl filePath signal s =
     (let tsize = length bl;
          csize = chunkSize (uploadConfig s)
      in case totalChunks_of tsize csize of
           None \<Rightarrow> None
         | Some totalChunks \<Rightarrow>
             (case simulate_chunks env uid signal tsize 0 0
                     (slice_chunks totalChunks csize bl) s of
                (Inl e, s1) \<Rightarrow>
                  Some (StrategyFailed (error_message ''Chunked upload failed'' e), s1)
              | (Inr u, s1) \<Rightarrow>
                  (let s2 = at_await env AwaitStorageUpload uid s1
                   in case storageUpload env of
                        StorageError e \<Rightarrow>
                          Some (StrategyFailed (error_message ''Chunked upload failed'' e), s2)
                      | Stored \<Rightarrow> Some (StrategyOk, s2))))"

datatype Strategy = Direct | Chunked

definition chooseStrategy :: "UploadConfig \<Rightarrow> Blob \<Rightarrow> Strategy" where
  "chooseStrategy c bl = (if length bl > chunkSize c * 2 then Chunked else Direct)"

text \<open>
  The result object. Its public URL and metadata, like the metadata argument and the
  row inserted by \<open>storeVideoMetadata\<close> (whose failure is only logged), have no effect on
  the maps, the progress events or the success flag, and are left out.
\<close>

record UploadResult =
  success :: bool
  r_uploadId :: string
  filePath :: "string option"
  r_error :: "string option"

text \<open>The choice between the two strategies.\<close>

definition run_strategy ::
  "UploadEnv \<Rightarrow> string \<Rightarrow> Blob \<Rightarrow> string \<Rightarrow> nat \<Rightarrow> Service
     \<Rightarrow> (StrategyResult \<times> Service) option" where
  "run_strategy env uid bl path controller s =
     (case chooseStrategy (uploadConfig s) bl of
        Chunked \<Rightarrow> chunkedUpload env uid bl path controller s
      | Direct \<Rightarrow> Some (directUpload env uid bl path controller s))"

text \<open>
  What follows a successful transmission, up to the clean-up: a thrown value or the
  result, and the state.
\<close>

definition complete_upload ::
  "UploadEnv \<Rightarrow> string \<Rightarrow> string \<Rightarrow> Service \<Rightarrow> (thrown + UploadResult) \<times> Service" where
  "complete_upload env uid path s =
     (case updateProgress uid (no_updates\<lparr>u_status := Some Processing\<rparr>) s of
        (Some e, s1) \<Rightarrow> (Inl e, s1)
      | (None, s1) \<Rightarrow>
          (let s2 = at_await env AwaitStoreMetadata uid s1
           in case updateProgress uid
                     (no_updates\<lparr>u_status := Some Completed, u_percentage := Some 100\<rparr>) s2 of
                (Some e, s3) \<Rightarrow> (Inl e, s3)
              | (None, s3) \<Rightarrow>
                  (Inr \<lparr>success = True, r_uploadId = uid, filePath = Some path, r_error = None\<rparr>,
                   cleanup uid s3)))"

definition initial_update :: "string \<Rightarrow> Blob \<Rightarrow> ProgressUpdates" where
  "initial_update uid bl =
     \<lparr>u_uploadId = Some uid, u_bytesUploaded = Some 0, u_totalBytes = Some (length bl),
      u_percentage = Some 0, u_speed = Some (Num 0), u_estimatedTimeRemaining = Some (Num 0),
      u_status = Some Pending, u_error = None\<rparr>"

text \<open>The body of the \<open>try\<close> block: a thrown value or the result, and the state.\<close>

definition try_upload ::
  "UploadEnv \<Rightarrow> Blob \<Rightarrow> string \<Rightarrow> string \<Rightarrow> nat \<Rightarrow> Service
     \<Rightarrow> ((thrown + UploadResult) \<times> Service) option" where
  "try_upload env bl filename uid controller s =
     (case updateProgress uid (initial_update uid bl) s of
        (Some e, s1) \<Rightarrow> Some (Inl e, s1)
      | (None, s1) \<Rightarrow>
          (let s2 = at_await env AwaitGetUser uid s1
           in case authUser env of
                None \<Rightarrow> Some (Inl (ErrorObject ''User not authenticated''), s2)
              | Some user \<Rightarrow>
                  (let stamp = map (\<lambda>c. if c = CHR '':'' \<or> c = CHR ''.'' then CHR ''-'' else c)
                                 (isoTimestamp env);
                       safeFilename = sanitizeFilename filename;
                       path = ''videos/'' @ user @ ''/'' @ stamp @ ''_'' @ safeFilename
                   in case updateProgress uid (no_updates\<lparr>u_status := Some Uploading\<rparr>) s2 of
                        (Some e, s3) \<Rightarrow> Some (Inl e, s3)
                      | (None, s3) \<Rightarrow>
                          (case run_strategy env uid bl path controller s3 of
                             None \<Rightarrow> None
                           | Some (StrategyFailed msg, s4) \<Rightarrow>
                               Some (Inl (ErrorObject (if msg = [] then ''Upload failed'' else msg)), s4)
                           | Some (StrategyOk, s4) \<Rightarrow> Some (complete_upload env uid path s4)))))"

text \<open>
  \<open>uploadVideo\<close>: registration, the \<open>try\<close> block, and the \<open>catch\<close> clause. \<open>None\<close> means
  that the call never settles; \<open>Inl e\<close> that its promise is rejected with \<open>e\<close>, which
  happens when the callback throws inside the \<open>catch\<close> clause, before the clean-up;
  \<open>Inr result\<close> that it is fulfilled with the result object.
\<close>

definition uploadVideo ::
  "UploadEnv \<Rightarrow> Blob \<Rightarrow> string \<Rightarrow> nat option \<Rightarrow> Service
     \<Rightarrow> ((thrown + UploadResult) \<times> Service) option" where
  "uploadVideo env bl filename onProgress s =
     (let uid = generatedUploadId env;
          controller = nextController s;
          s1 = s\<lparr>nextController := Suc controller,
                 aborted := (aborted s)(controller := False),
                 activeUploads := (activeUploads s)(uid \<mapsto> controller)\<rparr>;
          s2 = (case onProgress of
                  None \<Rightarrow> s1
                | Some callback \<Rightarrow> s1\<lparr>progressCallbacks := (progressCallbacks s1)(uid \<mapsto> callback)\<rparr>)
      in case try_upload env bl filename uid controller s2 of
           None \<Rightarrow> None
         | Some (Inr result, s3) \<Rightarrow> Some (Inr result, s3)
         | Some (Inl e, s3) \<Rightarrow>
             (let msg = error_message ''Unknown error'' e
              in case updateProgress uid
                        (no_updates\<lparr>u_status := Some Error, u_error := Some msg\<rparr>) s3 of
                   (Some e', s4) \<Rightarrow> Some (Inl e', s4)
                 | (None, s4) \<Rightarrow>
                     Some (Inr \<lparr>success = False, r_uploadId = uid, filePath = None,
                                r_error = Some msg\<rparr>,
                           cleanup uid s4)))"

text \<open>The events that a call added to the log of deliveries.\<close>

definition new_events :: "Service \<Rightarrow> Service \<Rightarrow> (nat \<times> UploadProgress) list" where
  "new_events s s' = drop (length (delivered s)) (delivered s')"

subsection \<open>Later calls on one upload id\<close>




subsection \<open>Notions for stating the progress sequences\<close>

text \<open>An environment in which nobody calls \<open>cancelUpload\<close> on the upload.\<close>

definition calm :: "UploadEnv \<Rightarrow> bool" where
  "calm env \<longleftrightarrow> (\<forall>p. \<not> cancelDuring env p)"

text \<open>
  Callbacks that never throw, and callbacks that do not throw when they are given an
  event with status \<open>error\<close> or \<open>cancelled\<close>.
\<close>

definition polite :: "Service \<Rightarrow> bool" where
  "polite s \<longleftrightarrow> (\<forall>cb hist e. reaction s cb hist e = None)"




definition delivered_after :: "((thrown + UploadResult) \<times> Service) option \<Rightarrow> (nat \<times> UploadProgress) list" where
  "delivered_after r = (case r of None \<Rightarrow> [] | Some (res, s') \<Rightarrow> delivered s')"


text \<open>
  The events of an upload in flight. As long as nobody has cancelled it, the upload is
  registered and its events are ordinary: none has status \<open>cancelled\<close> or \<open>error\<close>, and
  none carries a description. Once \<open>cancelUpload\<close> has been called, the upload and its
  callback are no longer registered, and its events, if it had a callback, are ordinary
  events followed by the \<open>cancelled\<close> event. \<open>cbk\<close> is the callback registered for the
  upload when it starts, and \<open>s0\<close> the service before the call.
\<close>

definition quiet_run :: "(nat \<times> UploadProgress) list \<Rightarrow> bool" where
  "quiet_run evs \<longleftrightarrow>
     (\<forall>x\<in>set evs. status (snd x) \<noteq> Cancelled \<and> status (snd x) \<noteq> Error \<and> error (snd x) = None)"



subsection \<open>Concrete services and environments\<close>

text \<open>Callbacks that return, and callbacks that throw on an \<open>error\<close> or \<open>cancelled\<close> event.\<close>

definition returns :: "nat \<Rightarrow> (nat \<times> UploadProgress) list \<Rightarrow> UploadProgress \<Rightarrow> thrown option" where
  "returns cb hist e = None"

definition throws_on_bad_news :: "nat \<Rightarrow> (nat \<times> UploadProgress) list \<Rightarrow> UploadProgress \<Rightarrow> thrown option" where
  "throws_on_bad_news cb hist e =
     (if status e = Error \<or> status e = Cancelled then Some (ErrorObject ''render failed'') else None)"

text \<open>
  A service with one upload in flight, whose callback 7 has already received an event
  at 100%; the same with a callback that throws on bad news; and the same with no
  callback registered for the upload.
\<close>

definition busy_service :: Service where
  "busy_service =
     (new_VideoUploadService default_UploadConfig returns)
       \<lparr>activeUploads := [''upload_1'' \<mapsto> 0], progressCallbacks := [''upload_1'' \<mapsto> 7],
        nextController := 1,
        delivered := [(7, currentProgress ''upload_1''
                            (no_updates\<lparr>u_bytesUploaded := Some 10, u_percentage := Some 100\<rparr>))]\<rparr>"


definition silent_busy_service :: Service where
  "silent_busy_service = busy_service\<lparr>progressCallbacks := Map.empty, delivered := []\<rparr>"

text \<open>Fresh services with a chunk size of two bytes, and of zero.\<close>

definition small_service :: Service where
  "small_service = new_VideoUploadService (default_UploadConfig\<lparr>chunkSize := 2\<rparr>) returns"



text \<open>
  An authenticated user, a storage call that succeeds, and no cancellation; the same
  with \<open>cancelUpload\<close> called during the delay of the second simulated chunk, and while
  the metadata are stored; the same with no user.
\<close>

definition calm_env :: UploadEnv where
  "calm_env = \<lparr>generatedUploadId = ''upload_1'', authUser = Some ''u1'',
     isoTimestamp = ''2024-11-16T10:00:00.000Z'', storageUpload = Stored,
     directMillis = 50, elapsedMillis = (\<lambda>i. 100 * Suc i), cancelDuring = (\<lambda>p. False)\<rparr>"


definition late_env :: UploadEnv where
  "late_env = calm_env\<lparr>cancelDuring := (\<lambda>p. p = AwaitStoreMetadata)\<rparr>"


section \<open>Properties of the chunk buffer\<close>

lemma stack_exhausted:
  "getStats frames now b = Inl RangeError \<and> isNearLimit frames now b = Inl RangeError"
  by (induction frames) simp_all

lemma digit_char_inj: "n < 10 \<Longrightarrow> m < 10 \<Longrightarrow> digit_char n = digit_char m \<Longrightarrow> n = m"
  unfolding digit_char_def
  by (subst (asm) nth_eq_iff_index_eq) simp_all

lemma show_nat_nonempty: "show_nat n \<noteq> []"
  by (subst show_nat.simps) simp

lemma show_nat_length: "length (show_nat n) = Suc 0 \<longleftrightarrow> n < 10"
  by (subst show_nat.simps) (simp add: show_nat_nonempty)

lemma show_nat_inj: "show_nat n = show_nat m \<Longrightarrow> n = m"
proof (induction n arbitrary: m rule: show_nat.induct)
  case (1 n)
  show ?case
  proof (cases "n < 10")
    case True
    then have "length (show_nat m) = Suc 0" using "1.prems" show_nat_length[of n] by simp
    then have m: "m < 10" by (simp add: show_nat_length)
    from True m "1.prems" show ?thesis
      by (simp add: show_nat.simps[of n] show_nat.simps[of m] digit_char_inj)
  next
    case False
    then have "length (show_nat m) \<noteq> Suc 0" using "1.prems" show_nat_length[of n] by simp
    then have m: "\<not> m < 10" by (simp add: show_nat_length)
    from False m "1.prems" have "show_nat (n div 10) = show_nat (m div 10)"
      and "digit_char (n mod 10) = digit_char (m mod 10)"
      by (simp_all add: show_nat.simps[of n] show_nat.simps[of m])
    then have "n div 10 = m div 10" and "n mod 10 = m mod 10"
      using "1.IH"[OF False] by (simp_all add: digit_char_inj)
    then show ?thesis by (metis div_mult_mod_eq)
  qed
qed

lemma chunk_id_inj: "chunk_id rid t = chunk_id rid t' \<longleftrightarrow> t = t'"
  by (auto simp: chunk_id_def dest: show_nat_inj)

lemma to_chunk_chunkData: "to_chunk (chunkData rid c) = c"
  by (simp add: to_chunk_def chunkData_def)

lemma set_store_put: "set (store_put r db) \<subseteq> insert r (set db)"
  by (auto simp: store_put_def)

lemma ids_store_put: "set (map id_key (store_put r db)) = insert (id_key r) (set (map id_key db))"
  by (auto simp: store_put_def)

lemma map_replace_absent:
  "k \<notin> id_key ` set xs \<Longrightarrow> map (\<lambda>x. if id_key x = k then r else x) xs = xs"
  by (induction xs) auto

lemma distinct_store_put:
  "distinct (map id_key db) \<Longrightarrow> distinct (map id_key (store_put r db))"
proof (cases "id_key r \<in> set (map id_key db)")
  case False
  assume "distinct (map id_key db)"
  with False show ?thesis by (simp add: store_put_def)
next
  case True
  assume "distinct (map id_key db)"
  have "map id_key (map (\<lambda>x. if id_key x = id_key r then r else x) db) = map id_key db"
    by (induction db) auto
  then have "map id_key (store_put r db) = map id_key db"
    using True by (simp only: store_put_def if_True)
  with \<open>distinct (map id_key db)\<close> show ?thesis by simp
qed

lemma filter_replace_mset:
  "distinct (map id_key db) \<Longrightarrow> id_key r \<in> id_key ` set db \<Longrightarrow>
   (\<forall>x\<in>set db. id_key x = id_key r \<longrightarrow> \<not> P x) \<Longrightarrow> P r \<Longrightarrow>
   mset (filter P (map (\<lambda>x. if id_key x = id_key r then r else x) db)) = add_mset r (mset (filter P db))"
proof (induction db)
  case Nil
  then show ?case by simp
next
  case (Cons x xs)
  show ?case
  proof (cases "id_key x = id_key r")
    case True
    with Cons.prems have "id_key r \<notin> id_key ` set xs" by auto
    then have "map (\<lambda>x. if id_key x = id_key r then r else x) xs = xs"
      by (rule map_replace_absent)
    with True Cons.prems show ?thesis by simp
  next
    case False
    with Cons.prems have "id_key r \<in> id_key ` set xs" by auto
    with Cons.IH Cons.prems False show ?thesis by simp
  qed
qed

lemma persisted_store_put_fresh:
  assumes "distinct (map id_key db)" and "rec_recordingId r = rid"
    and "id_key r \<notin> id_key ` set (persisted rid db)"
  shows "mset (persisted rid (store_put r db)) = add_mset r (mset (persisted rid db))"
proof (cases "id_key r \<in> set (map id_key db)")
  case False
  with assms show ?thesis by (simp add: store_put_def persisted_def)
next
  case True
  have "\<forall>x\<in>set db. id_key x = id_key r \<longrightarrow> \<not> rec_recordingId x = rid"
    using assms(3) by (fastforce simp: persisted_def image_iff)
  with True assms(1,2) show ?thesis
    unfolding persisted_def store_put_def
    using filter_replace_mset[of db r "\<lambda>x. rec_recordingId x = rid"] by simp
qed

lemma persisted_store_put_subset:
  "set (persisted rid (store_put r db)) \<subseteq> insert r (set (persisted rid db))"
  using set_store_put[of r db] by (auto simp: persisted_def)

lemma distinct_flush_puts:
  "distinct (map id_key db) \<Longrightarrow> distinct (map id_key (flush_puts rid cs db))"
  unfolding flush_puts_def
  by (induction cs arbitrary: db) (simp_all add: distinct_store_put)

lemma persisted_flush_puts_subset:
  "set (persisted rid (flush_puts rid cs db)) \<subseteq> set (persisted rid db) \<union> chunkData rid ` set cs"
  unfolding flush_puts_def
proof (induction cs arbitrary: db)
  case Nil
  then show ?case by simp
next
  case (Cons c cs)
  show ?case
    using Cons.IH[of "store_put (chunkData rid c) db"] persisted_store_put_subset[of rid "chunkData rid c" db]
    by auto
qed

lemma persisted_flush_puts_mset:
  assumes "distinct (map id_key db)" and "canonical rid db"
    and "distinct (map rec_timestamp (persisted rid db) @ map timestamp cs)"
  shows "mset (persisted rid (flush_puts rid cs db)) = mset (persisted rid db) + mset (map (chunkData rid) cs)
       \<and> canonical rid (flush_puts rid cs db)"
  using assms
proof (induction cs arbitrary: db)
  case Nil
  then show ?case by (simp add: flush_puts_def)
next
  case (Cons c cs)
  let ?r = "chunkData rid c"
  let ?db = "store_put ?r db"
  have rid: "rec_recordingId ?r = rid" and key: "id_key ?r = chunk_id rid (timestamp c)"
    and ts: "rec_timestamp ?r = timestamp c"
    by (simp_all add: chunkData_def)
  have fresh: "id_key ?r \<notin> id_key ` set (persisted rid db)"
  proof
    assume "id_key ?r \<in> id_key ` set (persisted rid db)"
    then obtain x where x: "x \<in> set (persisted rid db)" "id_key x = id_key ?r" by auto
    with Cons.prems(2) have "chunk_id rid (rec_timestamp x) = chunk_id rid (timestamp c)"
      by (simp add: canonical_def key)
    then have "rec_timestamp x = timestamp c" by (simp add: chunk_id_inj)
    with x(1) have "timestamp c \<in> rec_timestamp ` set (persisted rid db)" by force
    with Cons.prems(3) show False by simp
  qed
  have m: "mset (persisted rid ?db) = add_mset ?r (mset (persisted rid db))"
    using persisted_store_put_fresh[OF Cons.prems(1) rid fresh] .
  have d: "distinct (map id_key ?db)" using Cons.prems(1) by (rule distinct_store_put)
  have c: "canonical rid ?db"
    using Cons.prems(2) persisted_store_put_subset[of rid ?r db] key ts
    by (auto simp: canonical_def)
  have "mset (map rec_timestamp (persisted rid ?db) @ map timestamp cs)
        = mset (map rec_timestamp (persisted rid db) @ map timestamp (c # cs))"
    using arg_cong[OF m, of "image_mset rec_timestamp"] ts by simp
  then have t: "distinct (map rec_timestamp (persisted rid ?db) @ map timestamp cs)"
    using Cons.prems(3) mset_eq_imp_distinct_iff by blast
  from Cons.IH[OF d c t] m show ?case by (simp add: flush_puts_def)
qed

lemma persisted_count_bound:
  assumes "distinct (map id_key db)"
  shows "length (persisted rid (flush_puts rid cs db)) \<le> length (persisted rid db) + card (timestamp ` set cs)"
proof -
  let ?P = "persisted rid (flush_puts rid cs db)"
  have "distinct (map id_key ?P)"
    unfolding persisted_def using distinct_flush_puts[OF assms, of rid cs] by (rule distinct_map_filter)
  then have "length ?P = card (id_key ` set ?P)"
    using distinct_card[of "map id_key ?P"] by simp
  also have "id_key ` set ?P \<subseteq> id_key ` set (persisted rid db) \<union> chunk_id rid ` timestamp ` set cs"
    using persisted_flush_puts_subset[of rid cs db] by (auto simp: chunkData_def)
  then have "card (id_key ` set ?P) \<le> card (id_key ` set (persisted rid db) \<union> chunk_id rid ` timestamp ` set cs)"
    by (intro card_mono) simp_all
  also have "\<dots> \<le> card (id_key ` set (persisted rid db)) + card (chunk_id rid ` timestamp ` set cs)"
    by (rule card_Un_le)
  also have "\<dots> \<le> length (persisted rid db) + card (timestamp ` set cs)"
  proof -
    have "card (id_key ` set (persisted rid db)) \<le> card (set (persisted rid db))"
      by (simp add: card_image_le)
    moreover have "card (set (persisted rid db)) \<le> length (persisted rid db)" by (rule card_length)
    moreover have "card (chunk_id rid ` timestamp ` set cs) \<le> card (timestamp ` set cs)"
      by (simp add: card_image_le)
    ultimately show ?thesis by linarith
  qed
  finally show ?thesis .
qed

lemma same_key_same_record:
  assumes "distinct (map id_key db)" and "x \<in> set db" and "y \<in> set db" and "id_key x = id_key y"
  shows "x = y"
  using assms by (auto simp: distinct_map dest: inj_onD)

lemma length_index_getAll: "length (index_getAll rid db) = length (persisted rid db)"
  by (simp add: index_getAll_def persisted_def)

lemma run_events_Nil [simp]: "run_events frames [] m = m"
  by (simp add: run_events_def)

lemma run_events_Cons [simp]:
  "run_events frames (e # evs) m = run_events frames evs (step frames e m)"
  by (simp add: run_events_def)

lemma flush_puts_Nil [simp]: "flush_puts rid [] db = db"
  by (simp add: flush_puts_def)

lemma flush_puts_Cons [simp]:
  "flush_puts rid (c # cs) db = flush_puts rid cs (store_put (chunkData rid c) db)"
  by (simp add: flush_puts_def)

lemma flush_puts_snoc:
  "flush_puts rid (cs @ [c]) db = store_put (chunkData rid c) (flush_puts rid cs db)"
  by (simp add: flush_puts_def)

lemma resume_absent: "tasks m k = None \<Longrightarrow> resume k ok m = m"
  by (simp add: resume_def)

lemma resumes_absent:
  "tasks m k = None \<Longrightarrow> run_events frames (replicate n (Resume k ok)) m = m"
  by (induction n) (simp_all add: resume_absent)

text \<open>The puts of an undisturbed flush, from element \<open>i\<close> on.\<close>

lemma puts_undisturbed:
  assumes "tasks m = [k \<mapsto> FlushPutting (generation m) i u]" and "txqueue m = [k]"
    and "i < length (chunks (buf m))" and "n = length (chunks (buf m)) - i"
  shows "quiescent (run_events frames (replicate n (Resume k True)) m)
       \<and> buf (run_events frames (replicate n (Resume k True)) m) = (buf m)\<lparr>chunks := []\<rparr>
       \<and> idb (run_events frames (replicate n (Resume k True)) m)
           = flush_puts (recordingId (buf m)) (drop i (chunks (buf m))) (idb m)
       \<and> nextTask (run_events frames (replicate n (Resume k True)) m) = nextTask m
       \<and> settled (run_events frames (replicate n (Resume k True)) m) k = Some FlushResolved"
  using assms
proof (induction n arbitrary: m i u)
  case 0
  then show ?case by simp
next
  case (Suc n)
  let ?cs = "chunks (buf m)"
  let ?m1 = "resume k True m"
  have turn: "has_turn k m" using Suc.prems(2) by (simp add: has_turn_def)
  have tk: "tasks m k = Some (FlushPutting (generation m) i u)" using Suc.prems(1) by simp
  have upd: "(tasks m)(k \<mapsto> t) = [k \<mapsto> t]" for t
    by (subst Suc.prems(1)) simp
  have del: "(tasks m)(k := None) = Map.empty"
    by (subst Suc.prems(1)) simp
  have dr: "drop i ?cs = ?cs ! i # drop (Suc i) ?cs"
    using Suc.prems(3) by (simp add: Cons_nth_drop_Suc)
  show ?case
  proof (cases "Suc i < length ?cs")
    case True
    have m1: "?m1 = m\<lparr>idb := store_put (chunkData (recordingId (buf m)) (?cs ! i)) (idb m),
                      tasks := [k \<mapsto> FlushPutting (generation m) (Suc i)
                                  (Some (case u of None \<Rightarrow> idb m | Some db \<Rightarrow> db))]\<rparr>"
      using Suc.prems(3) turn True
      by (simp add: resume_def tk flush_put_done_def array_of_def Let_def upd)
    have n: "n = length (chunks (buf ?m1)) - Suc i" using Suc.prems(4) by (simp add: m1)
    have "tasks ?m1 = [k \<mapsto> FlushPutting (generation ?m1) (Suc i)
                              (Some (case u of None \<Rightarrow> idb m | Some db \<Rightarrow> db))]"
      and "txqueue ?m1 = [k]" and "Suc i < length (chunks (buf ?m1))"
      using Suc.prems(2) True by (simp_all add: m1)
    from Suc.IH[OF this n] show ?thesis by (simp add: m1 dr)
  next
    case False
    with Suc.prems(3,4) have n0: "n = 0" and last: "drop (Suc i) ?cs = []" by simp_all
    have "?m1 = settle_task k FlushResolved (reset_chunks (end_transaction
                  (m\<lparr>idb := store_put (chunkData (recordingId (buf m)) (?cs ! i)) (idb m)\<rparr>)))"
      using Suc.prems(3) turn False
      by (simp add: resume_def tk flush_put_done_def array_of_def Let_def)
    then show ?thesis
      using Suc.prems(2) n0 dr last del
      by (simp add: settle_task_def reset_chunks_def end_transaction_def quiescent_def)
  qed
qed

lemma run_events_append:
  "run_events frames (xs @ ys) m = run_events frames ys (run_events frames xs m)"
  by (simp add: run_events_def)

text \<open>The first \<open>n\<close> puts of an undisturbed flush that has more than \<open>n\<close> to make.\<close>

lemma puts_partial:
  assumes "tasks m = [k \<mapsto> FlushPutting (generation m) i u]" and "txqueue m = [k]"
    and "i + n < length (chunks (buf m))"
  shows "\<exists>u'. tasks (run_events frames (replicate n (Resume k True)) m)
                = [k \<mapsto> FlushPutting (generation m) (i + n) u']
             \<and> (case u' of None \<Rightarrow> idb (run_events frames (replicate n (Resume k True)) m) | Some d \<Rightarrow> d)
                = (case u of None \<Rightarrow> idb m | Some d \<Rightarrow> d)
             \<and> txqueue (run_events frames (replicate n (Resume k True)) m) = [k]
             \<and> buf (run_events frames (replicate n (Resume k True)) m) = buf m
             \<and> generation (run_events frames (replicate n (Resume k True)) m) = generation m
             \<and> nextTask (run_events frames (replicate n (Resume k True)) m) = nextTask m"
  using assms
proof (induction n arbitrary: m i u)
  case 0
  then show ?case by (intro exI[of _ u]) (simp split: option.splits)
next
  case (Suc n)
  let ?cs = "chunks (buf m)"
  let ?e = "case u of None \<Rightarrow> idb m | Some d \<Rightarrow> d"
  let ?m1 = "m\<lparr>idb := store_put (chunkData (recordingId (buf m)) (?cs ! i)) (idb m),
               tasks := [k \<mapsto> FlushPutting (generation m) (Suc i) (Some ?e)]\<rparr>"
  have turn: "has_turn k m" using Suc.prems(2) by (simp add: has_turn_def)
  have tk: "tasks m k = Some (FlushPutting (generation m) i u)" using Suc.prems(1) by simp
  have upd: "(tasks m)(k \<mapsto> t) = [k \<mapsto> t]" for t
    by (subst Suc.prems(1)) simp
  have m1: "resume k True m = ?m1"
    using Suc.prems(3) turn
    by (simp add: resume_def tk flush_put_done_def array_of_def Let_def upd)
  have "tasks ?m1 = [k \<mapsto> FlushPutting (generation ?m1) (Suc i) (Some ?e)]"
    and "txqueue ?m1 = [k]" and "Suc i + n < length (chunks (buf ?m1))"
    using Suc.prems(2,3) by simp_all
  from Suc.IH[OF this] show ?case by (simp add: m1 cong: option.case_cong)
qed

lemma put_fails:
  assumes "tasks m = [k \<mapsto> FlushPutting (generation m) i u]" and "txqueue m = [k]"
    and "i < length (chunks (buf m))"
  shows "quiescent (resume k False m) \<and> buf (resume k False m) = buf m
       \<and> idb (resume k False m) = (case u of None \<Rightarrow> idb m | Some d \<Rightarrow> d)
       \<and> nextTask (resume k False m) = nextTask m"
proof -
  have tk: "tasks m k = Some (FlushPutting (generation m) i u)" using assms(1) by simp
  have del: "(tasks m)(k := None) = Map.empty"
    by (subst assms(1)) simp
  show ?thesis
    using assms(2,3)
    by (simp add: resume_def tk flush_put_done_def has_turn_def array_of_def Let_def settle_task_def
        end_transaction_def quiescent_def del)
qed

text \<open>
  An awaited flush of a buffer with nothing pending leaves nothing pending. Either it
  has written every chunk and emptied the memory, or it has failed and left memory and
  store as they were.
\<close>

lemma undisturbed_flush_ok:
  assumes "quiescent m"
  shows "quiescent (undisturbed_flush frames None m)
       \<and> buf (undisturbed_flush frames None m) = (buf m)\<lparr>chunks := []\<rparr>
       \<and> idb (undisturbed_flush frames None m)
           = flush_puts (recordingId (buf m)) (chunks (buf m)) (idb m)
       \<and> nextTask (undisturbed_flush frames None m) = Suc (nextTask m)
       \<and> settled (undisturbed_flush frames None m) (nextTask m) = Some FlushResolved"
proof (cases "chunks (buf m) = []")
  case True
  let ?m1 = "m\<lparr>settled := (settled m)(nextTask m \<mapsto> FlushResolved), nextTask := Suc (nextTask m)\<rparr>"
  have "tasks ?m1 (nextTask m) = None" using assms by (simp add: quiescent_def)
  then have "resume (nextTask m) True ?m1 = ?m1" by (rule resume_absent)
  with True assms show ?thesis
    by (simp add: undisturbed_flush_def flushToIndexedDB_def settle_events_def quiescent_def)
next
  case False
  let ?k = "nextTask m"
  let ?m2 = "m\<lparr>tasks := [?k \<mapsto> FlushPutting (generation m) 0 None], txqueue := [?k],
                nextTask := Suc ?k\<rparr>"
  have open': "resume ?k True (flushToIndexedDB m) = ?m2"
    using False assms
    by (simp add: flushToIndexedDB_def spawn_def resume_def flush_opened_def quiescent_def)
  have run: "undisturbed_flush frames None m
             = run_events frames (replicate (length (chunks (buf m))) (Resume ?k True)) ?m2"
    by (simp add: undisturbed_flush_def settle_events_def open')
  have "tasks ?m2 = [?k \<mapsto> FlushPutting (generation ?m2) 0 None]" and "txqueue ?m2 = [?k]"
    and "0 < length (chunks (buf ?m2))" and "length (chunks (buf m)) = length (chunks (buf ?m2)) - 0"
    using False by simp_all
  from puts_undisturbed[OF this, of frames] show ?thesis by (simp add: run)
qed

lemma undisturbed_flush_failing:
  assumes "quiescent m"
  shows "quiescent (undisturbed_flush frames (Some j) m)
       \<and> nextTask (undisturbed_flush frames (Some j) m) = Suc (nextTask m)
       \<and> (buf (undisturbed_flush frames (Some j) m) = buf m
            \<and> idb (undisturbed_flush frames (Some j) m) = idb m
          \<or> buf (undisturbed_flush frames (Some j) m) = (buf m)\<lparr>chunks := []\<rparr>
            \<and> idb (undisturbed_flush frames (Some j) m)
                = flush_puts (recordingId (buf m)) (chunks (buf m)) (idb m))"
proof -
  let ?k = "nextTask m"
  let ?n = "length (chunks (buf m))"
  let ?f = "flushToIndexedDB m"
  have run: "undisturbed_flush frames (Some j) m
             = run_events frames [Resume ?k False] (run_events frames (replicate j (Resume ?k True)) ?f)"
    by (simp add: undisturbed_flush_def settle_events_def run_events_append)
  consider (empty) "chunks (buf m) = []" | (at_open) "chunks (buf m) \<noteq> []" and "j = 0"
    | (putting) "chunks (buf m) \<noteq> []" and "0 < j" and "j \<le> ?n"
    | (late) "chunks (buf m) \<noteq> []" and "?n < j"
    by linarith
  then show ?thesis
  proof cases
    case empty
    have none: "tasks ?f ?k = None" using assms empty by (simp add: flushToIndexedDB_def quiescent_def)
    have "undisturbed_flush frames (Some j) m = ?f"
      by (simp add: run resumes_absent[OF none] resume_absent[OF none])
    with assms empty show ?thesis by (simp add: flushToIndexedDB_def quiescent_def)
  next
    case at_open
    show ?thesis
      using assms at_open(1) unfolding run unfolding at_open(2)
      by (simp add: flushToIndexedDB_def spawn_def resume_def flush_opened_def settle_task_def
          quiescent_def)
  next
    case putting
    let ?m2 = "m\<lparr>tasks := [?k \<mapsto> FlushPutting (generation m) 0 None], txqueue := [?k],
                  nextTask := Suc ?k\<rparr>"
    have open': "resume ?k True ?f = ?m2"
      using putting(1) assms
      by (simp add: flushToIndexedDB_def spawn_def resume_def flush_opened_def quiescent_def)
    obtain j' where j: "j = Suc j'" and j': "j' < ?n" using putting(2,3) by (cases j) simp_all
    have "tasks ?m2 = [?k \<mapsto> FlushPutting (generation ?m2) 0 None]" and "txqueue ?m2 = [?k]"
      and "0 + j' < length (chunks (buf ?m2))"
      using j' by simp_all
    from puts_partial[OF this, of frames] obtain u' where
      t: "tasks (run_events frames (replicate j' (Resume ?k True)) ?m2)
          = [?k \<mapsto> FlushPutting (generation ?m2) (0 + j') u']"
      and e: "(case u' of None \<Rightarrow> idb (run_events frames (replicate j' (Resume ?k True)) ?m2) | Some d \<Rightarrow> d)
              = (case None of None \<Rightarrow> idb ?m2 | Some d \<Rightarrow> d)"
      and q: "txqueue (run_events frames (replicate j' (Resume ?k True)) ?m2) = [?k]"
      and b: "buf (run_events frames (replicate j' (Resume ?k True)) ?m2) = buf ?m2"
      and g: "generation (run_events frames (replicate j' (Resume ?k True)) ?m2) = generation ?m2"
      and x: "nextTask (run_events frames (replicate j' (Resume ?k True)) ?m2) = nextTask ?m2"
      by blast
    let ?r = "run_events frames (replicate j' (Resume ?k True)) ?m2"
    have u: "undisturbed_flush frames (Some j) m = resume ?k False ?r"
      by (simp add: undisturbed_flush_def settle_events_def run_events_append j open')
    have "tasks ?r = [?k \<mapsto> FlushPutting (generation ?r) j' u']" and "txqueue ?r = [?k]"
      and "j' < length (chunks (buf ?r))"
      using t q b g j' by simp_all
    from put_fails[OF this] e b x show ?thesis by (simp add: u)
  next
    case late
    have split: "replicate j (Resume ?k True)
                 = replicate (Suc ?n) (Resume ?k True) @ replicate (j - Suc ?n) (Resume ?k True)"
      using late(2) by (simp add: replicate_add[symmetric] del: replicate.simps)
    have done': "run_events frames (replicate (Suc ?n) (Resume ?k True)) ?f = undisturbed_flush frames None m"
      by (simp add: undisturbed_flush_def settle_events_def)
    from undisturbed_flush_ok[OF assms, of frames]
    have none: "tasks (undisturbed_flush frames None m) ?k = None" by (simp add: quiescent_def)
    have "undisturbed_flush frames (Some j) m = undisturbed_flush frames None m"
      by (simp only: run split run_events_append done' resumes_absent[OF none])
         (simp add: resume_absent[OF none])
    with undisturbed_flush_ok[OF assms, of frames] show ?thesis by simp
  qed
qed

lemma awaited_getAllChunks_eq:
  assumes "quiescent m"
  shows "awaited_getAllChunks frames m
         = Some (merge_chunks (recordingId (buf m)) (idb m) (chunks (buf m)))"
  using assms
  by (simp add: awaited_getAllChunks_def getAllChunks_def spawn_def resume_def get_opened_def
      get_read_def has_turn_def end_transaction_def settle_task_def returned_def quiescent_def)

lemma flush_inv:
  assumes "session_inv (b, db)"
  shows "session_inv (b\<lparr>chunks := []\<rparr>, flush_puts (recordingId b) (chunks b) db)
       \<and> mset (all_timestamps (b\<lparr>chunks := []\<rparr>, flush_puts (recordingId b) (chunks b) db))
           = mset (all_timestamps (b, db))"
proof -
  let ?rid = "recordingId b"
  let ?db = "flush_puts ?rid (chunks b) db"
  from assms have d: "distinct (map id_key db)" and c: "canonical ?rid db"
    and t: "distinct (map rec_timestamp (persisted ?rid db) @ map timestamp (chunks b))"
    by (simp_all add: session_inv_def all_timestamps_def)
  from persisted_flush_puts_mset[OF d c t]
  have m: "mset (persisted ?rid ?db) = mset (persisted ?rid db) + mset (map (chunkData ?rid) (chunks b))"
    and c': "canonical ?rid ?db" by simp_all
  have ts: "rec_timestamp \<circ> chunkData ?rid = timestamp"
    by (rule ext) (simp add: chunkData_def)
  have mt: "mset (map rec_timestamp (persisted ?rid ?db))
            = mset (map rec_timestamp (persisted ?rid db) @ map timestamp (chunks b))"
    using arg_cong[OF m, of "image_mset rec_timestamp"] by (simp add: image_mset.compositionality ts)
  then have "distinct (map rec_timestamp (persisted ?rid ?db))"
    using t mset_eq_imp_distinct_iff by blast
  with mt c' distinct_flush_puts[OF d, of ?rid "chunks b"] show ?thesis
    by (simp add: session_inv_def all_timestamps_def)
qed

lemma push_step:
  assumes "session_inv (b, db)" and "now \<notin> set (all_timestamps (b, db))"
    and "timestamp c = now"
  shows "session_inv (b\<lparr>chunks := chunks b @ [c]\<rparr>, db)
       \<and> mset (all_timestamps (b\<lparr>chunks := chunks b @ [c]\<rparr>, db)) = add_mset now (mset (all_timestamps (b, db)))"
  using assms by (auto simp: session_inv_def all_timestamps_def)

lemma push_chunk_fields:
  "tasks (push_chunk now bl m) = tasks m" "txqueue (push_chunk now bl m) = txqueue m"
  "nextTask (push_chunk now bl m) = nextTask m" "idb (push_chunk now bl m) = idb m"
  "recordingId (buf (push_chunk now bl m)) = recordingId (buf m)"
  "chunks (buf (push_chunk now bl m)) \<noteq> []"
  by (simp_all add: push_chunk_def Let_def)

lemma push_chunk_inv:
  assumes "session_inv (buf m, idb m)" and "now \<notin> set (all_timestamps (buf m, idb m))"
  shows "session_inv (buf (push_chunk now bl m), idb (push_chunk now bl m))
       \<and> mset (all_timestamps (buf (push_chunk now bl m), idb (push_chunk now bl m)))
           = add_mset now (mset (all_timestamps (buf m, idb m)))"
  using push_step[OF assms, of "\<lparr>blob = bl, timestamp = now, size_bytes = length bl,
                                  duration = elapsed_seconds now (buf m)\<rparr>"]
  by (simp add: push_chunk_def Let_def)

lemma addChunk_cases:
  "snd (addChunk frames now bl m) = push_chunk now bl m
   \<or> snd (addChunk frames now bl m) = flushToIndexedDB (push_chunk now bl m)"
  by (simp add: addChunk_def Let_def split: sum.splits)

text \<open>An awaited flush, whether it succeeds or fails, keeps the session's invariant.\<close>

lemma undisturbed_flush_inv:
  assumes "quiescent m" and "session_inv (buf m, idb m)"
  shows "quiescent (undisturbed_flush frames failing m)
       \<and> session_inv (buf (undisturbed_flush frames failing m), idb (undisturbed_flush frames failing m))
       \<and> mset (all_timestamps (buf (undisturbed_flush frames failing m), idb (undisturbed_flush frames failing m)))
           = mset (all_timestamps (buf m, idb m))
       \<and> recordingId (buf (undisturbed_flush frames failing m)) = recordingId (buf m)"
proof (cases failing)
  case None
  with undisturbed_flush_ok[OF assms(1), of frames] flush_inv[OF assms(2)] show ?thesis by simp
next
  case (Some j)
  from undisturbed_flush_failing[OF assms(1), of frames j] flush_inv[OF assms(2)] assms(2)
  show ?thesis unfolding Some by (elim conjE disjE) simp_all
qed

lemma awaited_call_inv:
  assumes "quiescent m" and "session_inv (buf m, idb m)"
    and "set (add_time c) \<inter> set (all_timestamps (buf m, idb m)) = {}"
  shows "quiescent (awaited_call frames c m)
       \<and> session_inv (buf (awaited_call frames c m), idb (awaited_call frames c m))
       \<and> mset (all_timestamps (buf (awaited_call frames c m), idb (awaited_call frames c m)))
           = mset (all_timestamps (buf m, idb m)) + mset (add_time c)
       \<and> recordingId (buf (awaited_call frames c m)) = recordingId (buf m)"
proof (cases c)
  case (FlushToIndexedDB failing)
  with undisturbed_flush_inv[OF assms(1,2), of frames failing] show ?thesis by simp
next
  case (AddChunk now bl failing)
  let ?p = "push_chunk now bl m"
  from assms(3) AddChunk have fresh: "now \<notin> set (all_timestamps (buf m, idb m))" by simp
  have q: "quiescent ?p" using assms(1) by (simp add: quiescent_def push_chunk_fields)
  have inv: "session_inv (buf ?p, idb ?p)"
    and ms: "mset (all_timestamps (buf ?p, idb ?p)) = add_mset now (mset (all_timestamps (buf m, idb m)))"
    using push_chunk_inv[OF assms(2) fresh] by simp_all
  have rid: "recordingId (buf ?p) = recordingId (buf m)" by (simp add: push_chunk_fields)
  from addChunk_cases[of frames now bl m] show ?thesis
  proof
    assume a: "snd (addChunk frames now bl m) = ?p"
    have none: "tasks ?p (nextTask m) = None" using assms(1) by (simp add: quiescent_def push_chunk_fields)
    have "awaited_call frames c m = ?p"
      using none by (cases failing) (simp_all add: AddChunk a settle_events_def resumes_absent resume_absent
          run_events_append Let_def del: replicate.simps)
    with q inv ms rid AddChunk show ?thesis by simp
  next
    assume a: "snd (addChunk frames now bl m) = flushToIndexedDB ?p"
    have len: "length (chunks (buf (flushToIndexedDB ?p))) = length (chunks (buf ?p))"
      by (simp add: flushToIndexedDB_def spawn_def)
    have "awaited_call frames c m = undisturbed_flush frames failing ?p"
      by (simp add: AddChunk a len undisturbed_flush_def push_chunk_fields)
    with undisturbed_flush_inv[OF q inv, of frames failing] ms rid AddChunk show ?thesis by simp
  qed
qed

lemma awaited_calls_Cons:
  "awaited_calls frames (c # calls) m = awaited_calls frames calls (awaited_call frames c m)"
  by (simp add: awaited_calls_def)

lemma awaited_calls_inv:
  assumes "quiescent m" and "session_inv (buf m, idb m)" and "distinct (add_times calls)"
    and "set (add_times calls) \<inter> set (all_timestamps (buf m, idb m)) = {}"
  shows "quiescent (awaited_calls frames calls m)
       \<and> mset (all_timestamps (buf (awaited_calls frames calls m), idb (awaited_calls frames calls m)))
           = mset (all_timestamps (buf m, idb m)) + mset (add_times calls)
       \<and> recordingId (buf (awaited_calls frames calls m)) = recordingId (buf m)"
  using assms
proof (induction calls arbitrary: m)
  case Nil
  then show ?case by (simp add: awaited_calls_def add_times_def)
next
  case (Cons c calls)
  let ?m = "awaited_call frames c m"
  have at: "add_times (c # calls) = add_time c @ add_times calls" by (simp add: add_times_def)
  from Cons.prems(4) at have f: "set (add_time c) \<inter> set (all_timestamps (buf m, idb m)) = {}"
    by auto
  from awaited_call_inv[OF Cons.prems(1,2) f, of frames]
  have s0: "quiescent ?m" and s1: "session_inv (buf ?m, idb ?m)"
    and s2: "mset (all_timestamps (buf ?m, idb ?m)) = mset (all_timestamps (buf m, idb m)) + mset (add_time c)"
    and s3: "recordingId (buf ?m) = recordingId (buf m)" by simp_all
  have d: "distinct (add_times calls)" using Cons.prems(3) at by simp
  have "set_mset (mset (all_timestamps (buf ?m, idb ?m)))
        = set_mset (mset (all_timestamps (buf m, idb m)) + mset (add_time c))"
    using s2 by simp
  then have "set (all_timestamps (buf ?m, idb ?m)) = set (all_timestamps (buf m, idb m)) \<union> set (add_time c)"
    by simp
  then have disj: "set (add_times calls) \<inter> set (all_timestamps (buf ?m, idb ?m)) = {}"
    using Cons.prems(3,4) at by auto
  from Cons.IH[OF s0 s1 d disj] s2 s3 at show ?case by (simp add: awaited_calls_Cons)
qed

lemma length_add_times: "length (add_times calls) = length (filter is_addChunk calls)"
proof (induction calls)
  case Nil
  then show ?case by (simp add: add_times_def)
next
  case (Cons c calls)
  then show ?case by (cases c) (simp_all add: add_times_def)
qed

lemma merge_chunks_timestamps:
  "mset (map timestamp (merge_chunks (recordingId b) db (chunks b))) = mset (all_timestamps (b, db))"
proof -
  have "timestamp \<circ> to_chunk = rec_timestamp" by (rule ext) (simp add: to_chunk_def)
  then show ?thesis
    by (simp add: merge_chunks_def index_getAll_def all_timestamps_def persisted_def
        image_mset.compositionality)
qed

text \<open>
  C1, as amended. Take any sequence of \<open>addChunk\<close> and \<open>flushToIndexedDB\<close> calls made
  after \<open>initialize()\<close> in which every flush, explicit or started by \<open>addChunk\<close>, has
  settled (with success, or with a failure of the database or of a \<open>put\<close>) before the
  next call is made, on a store that holds one record per key and none yet for this
  recording. If the clock readings of the \<open>addChunk\<close> calls are pairwise distinct, then
  \<open>getAllChunks()\<close>, called when the last flush has settled and with IndexedDB readable,
  returns the chunks sorted by timestamp, without duplicates, as many as there were
  \<open>addChunk\<close> calls, and with exactly the timestamps of those calls.
\<close>

theorem getAllChunks_complete:
  assumes "distinct (map id_key db)"
    and "persisted (recordingId b) db = []"
    and "distinct (add_times calls)"
  shows "\<exists>cs. chunks_after frames calls (start_runtime (initialize t0 b) db) = Some cs
       \<and> sorted (map timestamp cs) \<and> distinct cs
       \<and> length cs = length (filter is_addChunk calls)
       \<and> mset (map timestamp cs) = mset (add_times calls)"
proof -
  let ?ini = "start_runtime (initialize t0 b) db"
  let ?fin = "awaited_calls frames calls ?ini"
  have q0: "quiescent ?ini" by (simp add: quiescent_def start_runtime_def)
  have rid: "recordingId (buf ?ini) = recordingId b" by (simp add: start_runtime_def initialize_def)
  have inv: "session_inv (buf ?ini, idb ?ini)" and emp: "all_timestamps (buf ?ini, idb ?ini) = []"
    using assms(1,2) rid
    by (simp_all add: session_inv_def all_timestamps_def canonical_def)
       (simp_all add: start_runtime_def initialize_def)
  from awaited_calls_inv[OF q0 inv assms(3), of frames] emp
  have q: "quiescent ?fin"
    and m: "mset (all_timestamps (buf ?fin, idb ?fin)) = mset (add_times calls)" by simp_all
  let ?res = "merge_chunks (recordingId (buf ?fin)) (idb ?fin) (chunks (buf ?fin))"
  have res: "chunks_after frames calls ?ini = Some ?res"
    by (simp add: chunks_after_def awaited_getAllChunks_eq[OF q])
  have mt: "mset (map timestamp ?res) = mset (add_times calls)"
    using m by (simp only: merge_chunks_timestamps)
  have s: "sorted (map timestamp ?res)" by (simp add: merge_chunks_def)
  have "distinct (map timestamp ?res)"
    using mt assms(3) mset_eq_imp_distinct_iff by blast
  then have d: "distinct ?res" by (simp add: distinct_map)
  have "length (map timestamp ?res) = length (add_times calls)"
    using mt by (rule mset_eq_length)
  then have l: "length ?res = length (filter is_addChunk calls)" by (simp add: length_add_times)
  from res s d l mt show ?thesis by blast
qed

lemmas runtime_defs =
  returned_def start_runtime_def manual_buffer_def
  initialize_def new_VideoBuffer_def no_config_def addChunk_def push_chunk_def flushToIndexedDB_def
  getAllChunks_def spawn_def resume_def flush_opened_def flush_put_done_def get_opened_def get_read_def
  has_turn_def array_of_def end_transaction_def settle_task_def reset_chunks_def store_put_def
  chunkData_def merge_chunks_def index_getAll_def persisted_def to_chunk_def elapsed_seconds_def Let_def

theorem getAllChunks_complete_witness:
  "distinct (map id_key ([] :: ObjectStore))
   \<and> persisted (recordingId manual_buffer) [] = []
   \<and> distinct (add_times spaced_calls)
   \<and> (\<exists>cs. chunks_after 0 spaced_calls (start_runtime (initialize 1000 manual_buffer) []) = Some cs
         \<and> sorted (map timestamp cs) \<and> distinct cs \<and> length cs = 3
         \<and> mset (map timestamp cs) = {#2000, 2500, 3000#})"
proof -
  have h1: "distinct (map id_key ([] :: ObjectStore))" by simp
  have h2: "persisted (recordingId manual_buffer) [] = []" by (simp add: persisted_def)
  have h3: "distinct (add_times spaced_calls)" by (simp add: add_times_def spaced_calls_def)
  have n: "length (filter is_addChunk spaced_calls) = 3" by (simp add: spaced_calls_def)
  have t: "mset (add_times spaced_calls) = {#2000, 2500, 3000#}"
    by (simp add: add_times_def spaced_calls_def)
  from getAllChunks_complete[OF h1 h2 h3, of 0 1000] h1 h2 h3 show ?thesis
    unfolding n t by simp
qed

text \<open>
  C1 as stated fails in several ways. Two chunks taken within one millisecond are one
  record after a flush: one chunk is returned for two \<open>addChunk\<close> calls. A record left in
  the store by an earlier session under the same recording id is returned before any
  \<open>addChunk\<close> call. When \<open>getAllChunks()\<close> is called while a flush is pending, the chunk
  is returned twice, once from memory and once from the store. When two flushes overlap,
  the second empties the memory again, and a chunk added between the end of the first
  and the end of the second is lost. And when IndexedDB cannot be opened, a flushed chunk
  is not returned.
\<close>

theorem getAllChunks_same_ms_counterexample:
  "map_option (map timestamp) (chunks_after 0 same_ms_calls (start_runtime manual_buffer [])) = Some [1005]
   \<and> length (filter is_addChunk same_ms_calls) = 2
   \<and> map_option (map timestamp)
        (chunks_after 0 [] (start_runtime manual_buffer [chunkData ''rec'' chunk_a])) = Some [1005]
   \<and> map_option (map timestamp)
        (returned 1 (run_events 0 impatient_events (start_runtime manual_buffer []))) = Some [2000, 2000]
   \<and> map_option (map timestamp)
        (returned 2 (run_events 0 overlapping_events (start_runtime manual_buffer []))) = Some [2000]
   \<and> map_option (map timestamp)
        (returned 1 (run_events 0 unreadable_events (start_runtime manual_buffer []))) = Some []"
proof -
  have a: "map_option (map timestamp) (chunks_after 0 same_ms_calls (start_runtime manual_buffer [])) = Some [1005]"
    by (simp add: chunks_after_def awaited_calls_def awaited_getAllChunks_def undisturbed_flush_def
        settle_events_def same_ms_calls_def runtime_defs)
  have b: "length (filter is_addChunk same_ms_calls) = 2" by (simp add: same_ms_calls_def)
  have c: "map_option (map timestamp)
        (chunks_after 0 [] (start_runtime manual_buffer [chunkData ''rec'' chunk_a])) = Some [1005]"
    by (simp add: chunks_after_def awaited_calls_def awaited_getAllChunks_def chunk_a_def runtime_defs)
  have d: "map_option (map timestamp)
        (returned 1 (run_events 0 impatient_events (start_runtime manual_buffer []))) = Some [2000, 2000]"
    by (simp add: impatient_events_def runtime_defs)
  have e: "map_option (map timestamp)
        (returned 2 (run_events 0 overlapping_events (start_runtime manual_buffer []))) = Some [2000]"
    by (simp add: overlapping_events_def runtime_defs)
  have f: "map_option (map timestamp)
        (returned 1 (run_events 0 unreadable_events (start_runtime manual_buffer []))) = Some []"
    by (simp add: unreadable_events_def runtime_defs)
  from a b c d e f show ?thesis by (intro conjI)
qed

lemma store_put_mem: "r \<in> set (store_put r db)"
  by (auto simp: store_put_def)

lemma store_put_keeps: "x \<in> set db \<Longrightarrow> id_key x \<noteq> id_key r \<Longrightarrow> x \<in> set (store_put r db)"
  by (auto simp: store_put_def)

lemma timestamp_last_with: "c \<in> set cs \<Longrightarrow> timestamp (last_with c cs) = timestamp c"
proof -
  assume "c \<in> set cs"
  then have ne: "filter (\<lambda>c'. timestamp c' = timestamp c) cs \<noteq> []"
    by (auto simp: filter_empty_conv)
  from last_in_set[OF ne] show ?thesis by (simp add: last_with_def)
qed

lemma last_with_set: "c \<in> set cs \<Longrightarrow> last_with c cs \<in> set cs"
proof -
  assume "c \<in> set cs"
  then have ne: "filter (\<lambda>c'. timestamp c' = timestamp c) cs \<noteq> []"
    by (auto simp: filter_empty_conv)
  from last_in_set[OF ne] show ?thesis by (simp add: last_with_def)
qed

text \<open>After the puts of a flush, the store holds, for each chunk, the last chunk with its timestamp.\<close>

lemma flush_puts_last:
  "c \<in> set cs \<Longrightarrow> chunkData rid (last_with c cs) \<in> set (flush_puts rid cs db)"
proof (induction cs rule: rev_induct)
  case Nil
  then show ?case by simp
next
  case (snoc x xs)
  show ?case
  proof (cases "timestamp x = timestamp c")
    case True
    then have "last_with c (xs @ [x]) = x" by (simp add: last_with_def)
    then show ?thesis by (simp add: flush_puts_snoc store_put_mem)
  next
    case False
    with snoc.prems have c: "c \<in> set xs" by auto
    from False have l: "last_with c (xs @ [x]) = last_with c xs" by (simp add: last_with_def)
    have "id_key (chunkData rid (last_with c xs)) \<noteq> id_key (chunkData rid x)"
      using False timestamp_last_with[OF c] by (simp add: chunkData_def chunk_id_inj)
    with snoc.IH[OF c] show ?thesis by (simp add: l flush_puts_snoc store_put_keeps)
  qed
qed

text \<open>The puts of a flush leave the records under other keys as they are.\<close>

lemma flush_puts_keeps:
  "x \<in> set db \<Longrightarrow> id_key x \<notin> id_key ` chunkData rid ` set cs \<Longrightarrow> x \<in> set (flush_puts rid cs db)"
  by (induction cs rule: rev_induct) (auto simp: flush_puts_snoc intro: store_put_keeps)

text \<open>
  C10. A flush that is awaited and succeeds, on a buffer with nothing pending and a
  store with one record per key. The promise resolves and the memory is empty. Each
  chunk is written under the key \<open>recordingId_timestamp\<close>, and afterwards the one record
  stored under that key is that of the last chunk of the batch with this timestamp; so
  two different chunks with equal timestamps have the same key, and at most one of them
  is in the store afterwards. The number of chunks (persisted plus in memory) is the
  same before and after the flush only if the timestamps of the batch are pairwise
  distinct; and it is the same whenever all timestamps of the session are distinct and
  the store is keyed by them.
\<close>

theorem flush_equal_timestamps_collide:
  assumes "quiescent m" and "distinct (map id_key (idb m))"
  shows "settled (undisturbed_flush frames None m) (nextTask m) = Some FlushResolved
   \<and> chunks (buf (undisturbed_flush frames None m)) = []
   \<and> (\<forall>c\<in>set (chunks (buf m)).
         id_key (chunkData (recordingId (buf m)) c) = chunk_id (recordingId (buf m)) (timestamp c)
       \<and> chunkData (recordingId (buf m)) (last_with c (chunks (buf m)))
           \<in> set (idb (undisturbed_flush frames None m))
       \<and> (\<forall>r\<in>set (idb (undisturbed_flush frames None m)).
             id_key r = chunk_id (recordingId (buf m)) (timestamp c)
             \<longrightarrow> r = chunkData (recordingId (buf m)) (last_with c (chunks (buf m)))))
   \<and> (\<forall>c1\<in>set (chunks (buf m)). \<forall>c2\<in>set (chunks (buf m)).
         timestamp c1 = timestamp c2 \<and> c1 \<noteq> c2 \<longrightarrow>
           id_key (chunkData (recordingId (buf m)) c1) = id_key (chunkData (recordingId (buf m)) c2)
         \<and> \<not> (chunkData (recordingId (buf m)) c1 \<in> set (idb (undisturbed_flush frames None m))
              \<and> chunkData (recordingId (buf m)) c2 \<in> set (idb (undisturbed_flush frames None m))))
   \<and> (length (index_getAll (recordingId (buf m)) (idb (undisturbed_flush frames None m)))
         + length (chunks (buf (undisturbed_flush frames None m)))
        = length (index_getAll (recordingId (buf m)) (idb m)) + length (chunks (buf m))
      \<longrightarrow> distinct (map timestamp (chunks (buf m))))
   \<and> (session_inv (buf m, idb m) \<longrightarrow>
        length (index_getAll (recordingId (buf m)) (idb (undisturbed_flush frames None m)))
         + length (chunks (buf (undisturbed_flush frames None m)))
        = length (index_getAll (recordingId (buf m)) (idb m)) + length (chunks (buf m)))"
proof -
  let ?rid = "recordingId (buf m)"
  let ?cs = "chunks (buf m)"
  let ?m' = "undisturbed_flush frames None m"
  let ?db = "flush_puts ?rid ?cs (idb m)"
  from undisturbed_flush_ok[OF assms(1), of frames]
  have st: "settled ?m' (nextTask m) = Some FlushResolved" and mem: "chunks (buf ?m') = []"
    and db: "idb ?m' = ?db" by simp_all
  have d: "distinct (map id_key ?db)" using assms(2) by (rule distinct_flush_puts)
  have key: "id_key (chunkData ?rid c) = chunk_id ?rid (timestamp c)" for c
    by (simp add: chunkData_def)
  have written: "chunkData ?rid (last_with c ?cs) \<in> set ?db" if "c \<in> set ?cs" for c
    using that by (rule flush_puts_last)
  have only: "r = chunkData ?rid (last_with c ?cs)"
    if "c \<in> set ?cs" and "r \<in> set ?db" and "id_key r = chunk_id ?rid (timestamp c)" for c r
  proof -
    have "id_key r = id_key (chunkData ?rid (last_with c ?cs))"
      using that(3) timestamp_last_with[OF that(1)] by (simp add: chunkData_def)
    with d that(2) written[OF that(1)] show ?thesis by (rule same_key_same_record)
  qed
  have one: "c1 = c2" if "timestamp c1 = timestamp c2"
    and "chunkData ?rid c1 \<in> set ?db" and "chunkData ?rid c2 \<in> set ?db" for c1 c2
  proof -
    have "id_key (chunkData ?rid c1) = id_key (chunkData ?rid c2)"
      using that(1) by (simp add: chunkData_def)
    with d that(2,3) have "chunkData ?rid c1 = chunkData ?rid c2" by (rule same_key_same_record)
    then have "to_chunk (chunkData ?rid c1) = to_chunk (chunkData ?rid c2)" by simp
    then show ?thesis by (simp only: to_chunk_chunkData)
  qed
  have cnt: "distinct (map timestamp ?cs)"
    if "length (persisted ?rid ?db) = length (persisted ?rid (idb m)) + length ?cs"
  proof -
    from persisted_count_bound[OF assms(2), of ?rid ?cs] that
    have "length ?cs \<le> card (timestamp ` set ?cs)" by simp
    moreover have "card (set (map timestamp ?cs)) \<le> length (map timestamp ?cs)"
      by (rule card_length)
    ultimately have "card (set (map timestamp ?cs)) = length (map timestamp ?cs)"
      by simp
    then show ?thesis by (rule card_distinct)
  qed
  have kept: "length (persisted ?rid ?db) = length (persisted ?rid (idb m)) + length ?cs"
    if "session_inv (buf m, idb m)"
  proof -
    from flush_inv[OF that]
    have "mset (all_timestamps ((buf m)\<lparr>chunks := []\<rparr>, ?db)) = mset (all_timestamps (buf m, idb m))"
      by simp
    then have "length (all_timestamps ((buf m)\<lparr>chunks := []\<rparr>, ?db)) = length (all_timestamps (buf m, idb m))"
      by (rule mset_eq_length)
    then show ?thesis by (simp add: all_timestamps_def)
  qed
  have c3: "\<forall>c\<in>set ?cs. id_key (chunkData ?rid c) = chunk_id ?rid (timestamp c)
       \<and> chunkData ?rid (last_with c ?cs) \<in> set (idb ?m')
       \<and> (\<forall>r\<in>set (idb ?m'). id_key r = chunk_id ?rid (timestamp c)
             \<longrightarrow> r = chunkData ?rid (last_with c ?cs))"
    using key written only unfolding db by blast
  have c4: "\<forall>c1\<in>set ?cs. \<forall>c2\<in>set ?cs. timestamp c1 = timestamp c2 \<and> c1 \<noteq> c2 \<longrightarrow>
           id_key (chunkData ?rid c1) = id_key (chunkData ?rid c2)
         \<and> \<not> (chunkData ?rid c1 \<in> set (idb ?m') \<and> chunkData ?rid c2 \<in> set (idb ?m'))"
    using one unfolding db by (auto simp: chunkData_def)
  have c5: "length (index_getAll ?rid (idb ?m')) + length (chunks (buf ?m'))
        = length (index_getAll ?rid (idb m)) + length ?cs \<longrightarrow> distinct (map timestamp ?cs)"
    using cnt by (simp add: db mem length_index_getAll)
  have c6: "session_inv (buf m, idb m) \<longrightarrow>
        length (index_getAll ?rid (idb ?m')) + length (chunks (buf ?m'))
        = length (index_getAll ?rid (idb m)) + length ?cs"
    using kept by (simp add: db mem length_index_getAll)
  from st mem c3 c4 c5 c6 show ?thesis by (intro conjI)
qed

theorem flush_equal_timestamps_collide_witness:
  "quiescent same_ms_runtime \<and> distinct (map id_key (idb same_ms_runtime))
   \<and> chunk_a \<in> set (chunks (buf same_ms_runtime)) \<and> chunk_b \<in> set (chunks (buf same_ms_runtime))
   \<and> timestamp chunk_a = timestamp chunk_b \<and> chunk_a \<noteq> chunk_b
   \<and> last_with chunk_a (chunks (buf same_ms_runtime)) = chunk_b
   \<and> chunkData ''rec'' chunk_b \<in> set (idb (undisturbed_flush 0 None same_ms_runtime))
   \<and> chunkData ''rec'' chunk_a \<notin> set (idb (undisturbed_flush 0 None same_ms_runtime))
   \<and> chunks (buf (undisturbed_flush 0 None same_ms_runtime)) = []
   \<and> quiescent spaced_runtime \<and> distinct (map id_key (idb spaced_runtime))
   \<and> session_inv (buf spaced_runtime, idb spaced_runtime)
   \<and> length (index_getAll ''rec'' (idb (undisturbed_flush 0 None spaced_runtime)))
        + length (chunks (buf (undisturbed_flush 0 None spaced_runtime)))
      = length (index_getAll ''rec'' (idb spaced_runtime)) + length (chunks (buf spaced_runtime))
   \<and> distinct (map timestamp (chunks (buf spaced_runtime)))"
proof -
  have rid: "recordingId (buf same_ms_runtime) = ''rec''" "recordingId (buf spaced_runtime) = ''rec''"
    by (simp_all add: same_ms_runtime_def spaced_runtime_def start_runtime_def manual_buffer_def
        initialize_def new_VideoBuffer_def)
  have cs: "chunks (buf same_ms_runtime) = [chunk_a, chunk_b]"
    by (simp add: same_ms_runtime_def start_runtime_def)
  have h1: "quiescent same_ms_runtime" by (simp add: quiescent_def same_ms_runtime_def start_runtime_def)
  have h2: "distinct (map id_key (idb same_ms_runtime))"
    by (simp add: same_ms_runtime_def start_runtime_def)
  have a: "chunk_a \<in> set (chunks (buf same_ms_runtime))" and b: "chunk_b \<in> set (chunks (buf same_ms_runtime))"
    by (simp_all add: cs)
  have ts: "timestamp chunk_a = timestamp chunk_b" and ne: "chunk_a \<noteq> chunk_b"
    by (simp_all add: chunk_a_def chunk_b_def)
  have l: "last_with chunk_a (chunks (buf same_ms_runtime)) = chunk_b"
    by (simp add: cs last_with_def ts)
  note same = flush_equal_timestamps_collide[OF h1 h2, of 0]
  from same have mem: "chunks (buf (undisturbed_flush 0 None same_ms_runtime)) = []"
    by (rule conjunct2[THEN conjunct1])
  from bspec[OF same[THEN conjunct2, THEN conjunct2, THEN conjunct1] a]
  have "chunkData (recordingId (buf same_ms_runtime)) (last_with chunk_a (chunks (buf same_ms_runtime)))
          \<in> set (idb (undisturbed_flush 0 None same_ms_runtime))"
    by (elim conjE)
  then have inb: "chunkData ''rec'' chunk_b \<in> set (idb (undisturbed_flush 0 None same_ms_runtime))"
    by (simp only: l rid)
  from same[THEN conjunct2, THEN conjunct2, THEN conjunct2, THEN conjunct1] a
  have "\<forall>c2\<in>set (chunks (buf same_ms_runtime)). timestamp chunk_a = timestamp c2 \<and> chunk_a \<noteq> c2 \<longrightarrow>
           id_key (chunkData (recordingId (buf same_ms_runtime)) chunk_a)
             = id_key (chunkData (recordingId (buf same_ms_runtime)) c2)
         \<and> \<not> (chunkData (recordingId (buf same_ms_runtime)) chunk_a
                 \<in> set (idb (undisturbed_flush 0 None same_ms_runtime))
              \<and> chunkData (recordingId (buf same_ms_runtime)) c2
                 \<in> set (idb (undisturbed_flush 0 None same_ms_runtime)))"
    by (rule bspec)
  from bspec[OF this b] ts ne inb
  have nota: "chunkData ''rec'' chunk_a \<notin> set (idb (undisturbed_flush 0 None same_ms_runtime))"
    by (simp add: rid)
  have g1: "quiescent spaced_runtime" by (simp add: quiescent_def spaced_runtime_def start_runtime_def)
  have g2: "distinct (map id_key (idb spaced_runtime))"
    by (simp add: spaced_runtime_def start_runtime_def)
  have g3: "session_inv (buf spaced_runtime, idb spaced_runtime)"
    by (simp add: session_inv_def all_timestamps_def canonical_def persisted_def spaced_runtime_def
        start_runtime_def chunk_a_def chunk_c_def)
  note spaced = flush_equal_timestamps_collide[OF g1 g2, of 0]
  from spaced[THEN conjunct2, THEN conjunct2, THEN conjunct2, THEN conjunct2, THEN conjunct2] g3
  have cnt: "length (index_getAll (recordingId (buf spaced_runtime)) (idb (undisturbed_flush 0 None spaced_runtime)))
        + length (chunks (buf (undisturbed_flush 0 None spaced_runtime)))
      = length (index_getAll (recordingId (buf spaced_runtime)) (idb spaced_runtime))
        + length (chunks (buf spaced_runtime))"
    by (rule mp)
  from spaced[THEN conjunct2, THEN conjunct2, THEN conjunct2, THEN conjunct2, THEN conjunct1] cnt
  have dist: "distinct (map timestamp (chunks (buf spaced_runtime)))" by (rule mp)
  from cnt have cnt': "length (index_getAll ''rec'' (idb (undisturbed_flush 0 None spaced_runtime)))
        + length (chunks (buf (undisturbed_flush 0 None spaced_runtime)))
      = length (index_getAll ''rec'' (idb spaced_runtime)) + length (chunks (buf spaced_runtime))"
    by (simp only: rid)
  from h1 h2 a b ts ne l inb nota mem g1 g2 g3 cnt' dist show ?thesis by (intro conjI)
qed

text \<open>
  C6. \<open>isNearLimit()\<close> is meant to answer whether the buffer has reached 80% of a limit.
  As written it never answers: whatever the buffer holds and however deep the stack,
  the mutual calls of \<open>isNearLimit\<close> and \<open>getStats\<close> exhaust the stack and the call
  ends in a \<open>RangeError\<close>.
\<close>

theorem isNearLimit_never_returns: "isNearLimit frames now b = Inl RangeError"
  using stack_exhausted by blast

text \<open>
  C7. \<open>getStats()\<close> is meant to return the statistics of the buffer: the sum of the
  sizes of the chunks in memory and the time elapsed since \<open>initialize()\<close>. As written
  it never returns them: to fill the field \<open>isNearLimit\<close> it calls \<open>isNearLimit()\<close>, which
  calls \<open>getStats()\<close> again, and whatever the buffer holds and however deep the stack,
  the call ends in a \<open>RangeError\<close>.
\<close>

theorem getStats_never_returns: "getStats frames now b = Inl RangeError"
  using stack_exhausted by blast

section \<open>Properties of the upload orchestrator\<close>

lemma underscore_unsafe: "\<not> safe_char (CHR ''_'')"
  by (simp add: safe_char_def)

lemma replace_unsafe_chars: "c \<in> set (replace_unsafe name) \<Longrightarrow> safe_char c \<or> c = CHR ''_''"
  by (auto simp: replace_unsafe_def)

lemma filter_replace_unsafe: "filter safe_char (replace_unsafe name) = filter safe_char name"
  by (induction name) (simp_all add: replace_unsafe_def underscore_unsafe)

lemma set_collapse: "set (collapse_underscores s) \<subseteq> set s"
  by (induction s rule: collapse_underscores.induct) auto

lemma filter_collapse: "filter safe_char (collapse_underscores s) = filter safe_char s"
  by (induction s rule: collapse_underscores.induct) (auto simp: underscore_unsafe)

lemma collapse_head: "\<exists>r. collapse_underscores (a # cs) = a # r"
  by (induction "a # cs" arbitrary: a cs rule: collapse_underscores.induct) auto

lemma collapse_no_run: "collapse_underscores s \<noteq> xs @ ''__'' @ ys"
proof (induction s arbitrary: xs rule: collapse_underscores.induct)
  case (1 a b cs)
  show ?case
  proof (cases "a = CHR ''_'' \<and> b = CHR ''_''")
    case True
    with "1.IH"(1) show ?thesis by simp
  next
    case False
    obtain r where r: "collapse_underscores (b # cs) = b # r"
      using collapse_head by blast
    show ?thesis
    proof
      assume eq: "collapse_underscores (a # b # cs) = xs @ ''__'' @ ys"
      show False
      proof (cases xs)
        case Nil
        with eq False r show False by simp
      next
        case (Cons x xs')
        with eq False have "collapse_underscores (b # cs) = xs' @ ''__'' @ ys" by simp
        with "1.IH"(2)[OF False] show False by blast
      qed
    qed
  qed
qed (auto simp: Cons_eq_append_conv)

lemma trim_decompose:
  "\<exists>p q. s = p @ trim_underscores s @ q \<and> (p = [] \<or> p = ''_'') \<and> (q = [] \<or> q = ''_'')"
proof -
  let ?s1 = "case s of [] \<Rightarrow> [] | c # cs \<Rightarrow> if c = CHR ''_'' then cs else s"
  have p: "\<exists>p. s = p @ ?s1 \<and> (p = [] \<or> p = ''_'')"
    by (cases s) auto
  have q: "\<exists>q. ?s1 = trim_underscores s @ q \<and> (q = [] \<or> q = ''_'')"
  proof (cases "?s1 \<noteq> [] \<and> last ?s1 = CHR ''_''")
    case True
    then have "trim_underscores s = butlast ?s1" by (simp add: trim_underscores_def)
    moreover from True have "?s1 = butlast ?s1 @ ''_''"
      using append_butlast_last_id[of ?s1] by simp
    ultimately show ?thesis by metis
  next
    case False
    then have "trim_underscores s = ?s1" by (auto simp add: trim_underscores_def Let_def)
    then show ?thesis by simp
  qed
  from p q show ?thesis by metis
qed

lemma trim_no_run:
  assumes "\<And>xs ys. s \<noteq> xs @ ''__'' @ ys"
  shows "trim_underscores s \<noteq> xs @ ''__'' @ ys"
proof
  assume eq: "trim_underscores s = xs @ ''__'' @ ys"
  obtain p q where "s = p @ trim_underscores s @ q" using trim_decompose by blast
  with eq have "s = (p @ xs) @ ''__'' @ (ys @ q)" by simp
  with assms show False by blast
qed

lemma trim_no_leading:
  assumes "\<And>xs ys. s \<noteq> xs @ ''__'' @ ys"
  shows "trim_underscores s \<noteq> CHR ''_'' # cs"
proof
  assume eq: "trim_underscores s = CHR ''_'' # cs"
  let ?s1 = "case s of [] \<Rightarrow> [] | c # cs \<Rightarrow> if c = CHR ''_'' then cs else s"
  have t: "trim_underscores s = ?s1 \<or> trim_underscores s = butlast ?s1"
    by (auto simp: trim_underscores_def Let_def)
  have "\<exists>r. ?s1 = CHR ''_'' # r"
  proof -
    from t eq have "?s1 = CHR ''_'' # cs \<or> butlast ?s1 = CHR ''_'' # cs" by metis
    then show ?thesis by (cases ?s1) (auto split: if_splits)
  qed
  then obtain r where r: "?s1 = CHR ''_'' # r" by blast
  show False
  proof (cases s)
    case Nil
    with r show False by simp
  next
    case (Cons c cs')
    show False
    proof (cases "c = CHR ''_''")
      case True
      with Cons r have "s = [] @ ''__'' @ r" by simp
      with assms show False by blast
    next
      case False
      with Cons r show False by simp
    qed
  qed
qed

lemma trim_no_trailing:
  assumes "\<And>xs ys. s \<noteq> xs @ ''__'' @ ys"
  shows "trim_underscores s \<noteq> cs @ ''_''"
proof
  assume eq: "trim_underscores s = cs @ ''_''"
  define s1 where "s1 = (case s of [] \<Rightarrow> [] | c # cs \<Rightarrow> if c = CHR ''_'' then cs else s)"
  have "\<exists>p. s = p @ s1 \<and> (p = [] \<or> p = ''_'')"
    unfolding s1_def by (cases s) auto
  then obtain p where p: "s = p @ s1" by blast
  have t: "trim_underscores s = (if s1 \<noteq> [] \<and> last s1 = CHR ''_'' then butlast s1 else s1)"
    by (simp add: trim_underscores_def s1_def)
  show False
  proof (cases "s1 \<noteq> [] \<and> last s1 = CHR ''_''")
    case True
    with t eq have bl: "butlast s1 = cs @ ''_''" by simp
    from True have "butlast s1 @ [last s1] = s1" by (intro append_butlast_last_id) simp
    with True bl have "s1 = (cs @ ''_'') @ ''_''" by metis
    with p have "s = (p @ cs) @ ''__'' @ []" by simp
    with assms show False by blast
  next
    case False
    with t eq have "s1 = cs @ ''_''" by auto
    with False show False by simp
  qed
qed

lemma set_trim: "set (trim_underscores s) \<subseteq> set s"
proof -
  obtain p q where "s = p @ trim_underscores s @ q" using trim_decompose by blast
  then have "set s = set p \<union> set (trim_underscores s) \<union> set q" by (metis set_append Un_assoc)
  then show ?thesis by blast
qed

lemma filter_trim: "filter safe_char (trim_underscores s) = filter safe_char s"
proof -
  obtain p q where d: "s = p @ trim_underscores s @ q" "p = [] \<or> p = ''_''" "q = [] \<or> q = ''_''"
    using trim_decompose by blast
  from d(2,3) have "filter safe_char p = []" "filter safe_char q = []"
    by (auto simp: underscore_unsafe)
  then have "filter safe_char (p @ trim_underscores s @ q) = filter safe_char (trim_underscores s)"
    by simp
  with d(1) show ?thesis by simp
qed

text \<open>
  C4, as amended. For every filename, the result of \<open>sanitizeFilename\<close> consists of
  characters of \<open>[A-Za-z0-9.-]\<close> and underscores only, keeps the characters of that
  class in their order, contains no two adjacent underscores, and neither starts nor
  ends with an underscore; and \<open>"my video!.webm"\<close> becomes \<open>"my_video_.webm"\<close>.
\<close>

theorem sanitizeFilename_shape:
  "set (sanitizeFilename filename) \<subseteq> {c. safe_char c} \<union> {CHR ''_''}
   \<and> filter safe_char (sanitizeFilename filename) = filter safe_char filename
   \<and> \<not> (\<exists>xs ys. sanitizeFilename filename = xs @ ''__'' @ ys)
   \<and> \<not> (\<exists>cs. sanitizeFilename filename = CHR ''_'' # cs)
   \<and> \<not> (\<exists>cs. sanitizeFilename filename = cs @ ''_'')
   \<and> sanitizeFilename ''my video!.webm'' = ''my_video_.webm''"
proof -
  let ?c = "collapse_underscores (replace_unsafe filename)"
  have nr: "\<And>xs ys. ?c \<noteq> xs @ ''__'' @ ys" by (rule collapse_no_run)
  have "set (sanitizeFilename filename) \<subseteq> set (replace_unsafe filename)"
    unfolding sanitizeFilename_def using set_trim set_collapse by blast
  then have a: "set (sanitizeFilename filename) \<subseteq> {c. safe_char c} \<union> {CHR ''_''}"
    using replace_unsafe_chars by blast
  have b: "filter safe_char (sanitizeFilename filename) = filter safe_char filename"
    by (simp add: sanitizeFilename_def filter_trim filter_collapse filter_replace_unsafe)
  have c: "\<not> (\<exists>xs ys. sanitizeFilename filename = xs @ ''__'' @ ys)"
    unfolding sanitizeFilename_def using trim_no_run[OF nr] by blast
  have d: "\<not> (\<exists>cs. sanitizeFilename filename = CHR ''_'' # cs)"
    unfolding sanitizeFilename_def using trim_no_leading[OF nr] by blast
  have e: "\<not> (\<exists>cs. sanitizeFilename filename = cs @ ''_'')"
    unfolding sanitizeFilename_def using trim_no_trailing[OF nr] by blast
  have f: "sanitizeFilename ''my video!.webm'' = ''my_video_.webm''"
    by (simp add: sanitizeFilename_def trim_underscores_def replace_unsafe_def safe_char_def)
  from a b c d e f show ?thesis by blast
qed

text \<open>
  C4 as stated fails on its own example: the exclamation mark becomes an underscore
  that is neither repeated nor at an edge, so it stays.
\<close>

theorem sanitizeFilename_example_counterexample:
  "sanitizeFilename ''my video!.webm'' \<noteq> ''my_video.webm''"
  by (simp add: sanitizeFilename_def trim_underscores_def replace_unsafe_def safe_char_def)

theorem sanitizeFilename_shape_witness:
  "sanitizeFilename ''__my  video!!.webm_'' = ''my_video_.webm''
   \<and> set (sanitizeFilename ''__my  video!!.webm_'') \<subseteq> {c. safe_char c} \<union> {CHR ''_''}
   \<and> filter safe_char (sanitizeFilename ''__my  video!!.webm_'') = ''myvideo.webm''"
proof -
  have v: "sanitizeFilename ''__my  video!!.webm_'' = ''my_video_.webm''"
    by (simp add: sanitizeFilename_def trim_underscores_def replace_unsafe_def safe_char_def)
  have f: "filter safe_char ''__my  video!!.webm_'' = ''myvideo.webm''"
    by (simp add: safe_char_def)
  note t = sanitizeFilename_shape[of "''__my  video!!.webm_''"]
  from t have a: "set (sanitizeFilename ''__my  video!!.webm_'') \<subseteq> {c. safe_char c} \<union> {CHR ''_''}"
    by (rule conjunct1)
  from t have "filter safe_char (sanitizeFilename ''__my  video!!.webm_'')
               = filter safe_char ''__my  video!!.webm_''"
    by blast
  then have b: "filter safe_char (sanitizeFilename ''__my  video!!.webm_'') = ''myvideo.webm''"
    using f by (rule trans)
  from v a b show ?thesis by blast
qed

lemma updateProgress_registered:
  "progressCallbacks s uid = Some cb \<Longrightarrow>
   updateProgress uid updates s
     = (reaction s cb (delivered s) (currentProgress uid updates),
        s\<lparr>delivered := delivered s @ [(cb, currentProgress uid updates)]\<rparr>)"
  by (simp add: updateProgress_def)

lemma updateProgress_unregistered:
  "progressCallbacks s uid = None \<Longrightarrow> updateProgress uid updates s = (None, s)"
  by (simp add: updateProgress_def)

text \<open>
  C9. With a callback registered for the id, \<open>updateProgress\<close> calls it once and changes
  nothing but the log of deliveries. Each of the eight fields of the event is the value
  that this update supplies for it, or, when the update omits it, the fixed default:
  the id passed, 0 for the byte counts, the percentage and the two timing fields, status
  \<open>pending\<close>, and no error. The event is the same in every service state, whatever was
  reported before. Without a callback for the id nothing happens.
\<close>

theorem updateProgress_defaults:
  "(\<forall>cb. progressCallbacks s uid = Some cb \<longrightarrow>
      (\<exists>e. updateProgress uid updates s
              = (reaction s cb (delivered s) e, s\<lparr>delivered := delivered s @ [(cb, e)]\<rparr>)
         \<and> uploadId e = (case u_uploadId updates of None \<Rightarrow> uid | Some v \<Rightarrow> v)
         \<and> bytesUploaded e = (case u_bytesUploaded updates of None \<Rightarrow> 0 | Some v \<Rightarrow> v)
         \<and> totalBytes e = (case u_totalBytes updates of None \<Rightarrow> 0 | Some v \<Rightarrow> v)
         \<and> percentage e = (case u_percentage updates of None \<Rightarrow> 0 | Some v \<Rightarrow> v)
         \<and> speed e = (case u_speed updates of None \<Rightarrow> Num 0 | Some v \<Rightarrow> v)
         \<and> estimatedTimeRemaining e
             = (case u_estimatedTimeRemaining updates of None \<Rightarrow> Num 0 | Some v \<Rightarrow> v)
         \<and> status e = (case u_status updates of None \<Rightarrow> Pending | Some v \<Rightarrow> v)
         \<and> error e = u_error updates
         \<and> (\<forall>s' cb'. progressCallbacks s' uid = Some cb' \<longrightarrow>
               delivered (snd (updateProgress uid updates s')) = delivered s' @ [(cb', e)])))
   \<and> (progressCallbacks s uid = None \<longrightarrow> updateProgress uid updates s = (None, s))"
proof (intro conjI allI impI)
  fix cb
  assume cb: "progressCallbacks s uid = Some cb"
  let ?e = "currentProgress uid updates"
  have 1: "updateProgress uid updates s
             = (reaction s cb (delivered s) ?e, s\<lparr>delivered := delivered s @ [(cb, ?e)]\<rparr>)"
    using cb by (rule updateProgress_registered)
  have 2: "\<forall>s' cb'. progressCallbacks s' uid = Some cb' \<longrightarrow>
               delivered (snd (updateProgress uid updates s')) = delivered s' @ [(cb', ?e)]"
    by (simp add: updateProgress_registered)
  show "\<exists>e. updateProgress uid updates s
              = (reaction s cb (delivered s) e, s\<lparr>delivered := delivered s @ [(cb, e)]\<rparr>)
         \<and> uploadId e = (case u_uploadId updates of None \<Rightarrow> uid | Some v \<Rightarrow> v)
         \<and> bytesUploaded e = (case u_bytesUploaded updates of None \<Rightarrow> 0 | Some v \<Rightarrow> v)
         \<and> totalBytes e = (case u_totalBytes updates of None \<Rightarrow> 0 | Some v \<Rightarrow> v)
         \<and> percentage e = (case u_percentage updates of None \<Rightarrow> 0 | Some v \<Rightarrow> v)
         \<and> speed e = (case u_speed updates of None \<Rightarrow> Num 0 | Some v \<Rightarrow> v)
         \<and> estimatedTimeRemaining e
             = (case u_estimatedTimeRemaining updates of None \<Rightarrow> Num 0 | Some v \<Rightarrow> v)
         \<and> status e = (case u_status updates of None \<Rightarrow> Pending | Some v \<Rightarrow> v)
         \<and> error e = u_error updates
         \<and> (\<forall>s' cb'. progressCallbacks s' uid = Some cb' \<longrightarrow>
               delivered (snd (updateProgress uid updates s')) = delivered s' @ [(cb', e)])"
    by (rule exI[of _ ?e], intro conjI, rule 1) (simp_all add: currentProgress_def 2[unfolded currentProgress_def])
next
  assume "progressCallbacks s uid = None"
  then show "updateProgress uid updates s = (None, s)" by (rule updateProgress_unregistered)
qed

theorem updateProgress_defaults_witness:
  "progressCallbacks busy_service ''upload_1'' = Some 7
   \<and> map (percentage \<circ> snd)
        (delivered (snd (updateProgress ''upload_1''
           (no_updates\<lparr>u_status := Some Processing, u_totalBytes := Some 10\<rparr>) busy_service)))
       = [100, 0]
   \<and> map (bytesUploaded \<circ> snd)
        (delivered (snd (updateProgress ''upload_1''
           (no_updates\<lparr>u_status := Some Processing, u_totalBytes := Some 10\<rparr>) busy_service)))
       = [10, 0]
   \<and> map (status \<circ> snd)
        (delivered (snd (updateProgress ''upload_1''
           (no_updates\<lparr>u_status := Some Processing, u_totalBytes := Some 10\<rparr>) busy_service)))
       = [Pending, Processing]
   \<and> map (totalBytes \<circ> snd)
        (delivered (snd (updateProgress ''upload_1''
           (no_updates\<lparr>u_status := Some Processing, u_totalBytes := Some 10\<rparr>) busy_service)))
       = [0, 10]
   \<and> progressCallbacks silent_busy_service ''upload_1'' = None
   \<and> updateProgress ''upload_1'' (no_updates\<lparr>u_status := Some Processing\<rparr>) silent_busy_service
       = (None, silent_busy_service)"
proof -
  let ?u = "no_updates\<lparr>u_status := Some Processing, u_totalBytes := Some 10\<rparr>"
  have h: "progressCallbacks busy_service ''upload_1'' = Some 7"
    by (simp add: busy_service_def new_VideoUploadService_def)
  have h': "progressCallbacks silent_busy_service ''upload_1'' = None"
    by (simp add: silent_busy_service_def)
  from updateProgress_defaults[of busy_service "''upload_1''" ?u, THEN conjunct1, THEN spec, THEN mp, OF h]
  obtain e where
    r: "updateProgress ''upload_1'' ?u busy_service
          = (reaction busy_service 7 (delivered busy_service) e,
             busy_service\<lparr>delivered := delivered busy_service @ [(7, e)]\<rparr>)"
    and f: "bytesUploaded e = (case u_bytesUploaded ?u of None \<Rightarrow> 0 | Some v \<Rightarrow> v)"
      "totalBytes e = (case u_totalBytes ?u of None \<Rightarrow> 0 | Some v \<Rightarrow> v)"
      "percentage e = (case u_percentage ?u of None \<Rightarrow> 0 | Some v \<Rightarrow> v)"
      "status e = (case u_status ?u of None \<Rightarrow> Pending | Some v \<Rightarrow> v)"
    by (elim exE conjE)
  have d: "delivered busy_service
           = [(7, currentProgress ''upload_1''
                     (no_updates\<lparr>u_bytesUploaded := Some 10, u_percentage := Some 100\<rparr>))]"
    by (simp add: busy_service_def new_VideoUploadService_def)
  have a: "map (percentage \<circ> snd) (delivered (snd (updateProgress ''upload_1'' ?u busy_service))) = [100, 0]"
    "map (bytesUploaded \<circ> snd) (delivered (snd (updateProgress ''upload_1'' ?u busy_service))) = [10, 0]"
    "map (status \<circ> snd) (delivered (snd (updateProgress ''upload_1'' ?u busy_service))) = [Pending, Processing]"
    "map (totalBytes \<circ> snd) (delivered (snd (updateProgress ''upload_1'' ?u busy_service))) = [0, 10]"
    using f unfolding r by (simp_all add: d currentProgress_def no_updates_def)
  from updateProgress_defaults[of silent_busy_service "''upload_1''" "no_updates\<lparr>u_status := Some Processing\<rparr>",
      THEN conjunct2, THEN mp, OF h']
  have b: "updateProgress ''upload_1'' (no_updates\<lparr>u_status := Some Processing\<rparr>) silent_busy_service
       = (None, silent_busy_service)" .
  from h a h' b show ?thesis by (intro conjI)
qed

lemma reaction_abort [simp]: "reaction (abort c s) = reaction s"
  "delivered (abort c s) = delivered s" "progressCallbacks (abort c s) = progressCallbacks s"
  "activeUploads (abort c s) = activeUploads s" "uploadConfig (abort c s) = uploadConfig s"
  by (simp_all add: abort_def)







lemma updateProgress_fields [simp]:
  "progressCallbacks (snd (updateProgress uid u s)) = progressCallbacks s"
  "activeUploads (snd (updateProgress uid u s)) = activeUploads s"
  "aborted (snd (updateProgress uid u s)) = aborted s"
  "uploadConfig (snd (updateProgress uid u s)) = uploadConfig s"
  "reaction (snd (updateProgress uid u s)) = reaction s"
  by (simp_all add: updateProgress_def split: option.splits)


lemma fst_updateProgress:
  "fst (updateProgress uid u s) =
     (case progressCallbacks s uid of
        None \<Rightarrow> None
      | Some cb \<Rightarrow> reaction s cb (delivered s) (currentProgress uid u))"
  by (simp add: updateProgress_def split: option.splits)


lemma cleanup_fields [simp]:
  "activeUploads (cleanup uid s) uid = None"
  "progressCallbacks (cleanup uid s) uid = None"
  "delivered (cleanup uid s) = delivered s"
  "uploadConfig (cleanup uid s) = uploadConfig s"
  "reaction (cleanup uid s) = reaction s"
  by (simp_all add: cleanup_def)


lemma quiet_run_Nil [simp]: "quiet_run []"
  by (simp add: quiet_run_def)



lemma at_await_calm: "calm env \<Longrightarrow> at_await env p uid s = s"
  by (simp add: at_await_def calm_def)










lemmas upload_run_defs =
  Let_def uploadVideo_def try_upload_def run_strategy_def complete_upload_def directUpload_def
  chunkedUpload_def chooseStrategy_def at_await_def cancelUpload_def abort_def updateProgress_def
  cleanup_def new_VideoUploadService_def default_UploadConfig_def totalChunks_of_def
  slice_chunks_def blob_slice_def upt_rec error_message_def currentProgress_def initial_update_def
  no_updates_def direct_update_def chunk_update_def returns_def throws_on_bad_news_def




lemma calm_calm_env: "calm calm_env"
  by (simp add: calm_def calm_env_def)

text \<open>
  C2, as amended. For every blob whose size is at most twice the configured chunk size,
  \<open>uploadVideo\<close> selects the direct strategy; when the user is authenticated, the storage
  call succeeds, nobody cancels and the callback does not throw, the upload succeeds and
  its callback receives exactly five events: the \<open>pending\<close> event at 0% with the size of
  the blob as total, the \<open>uploading\<close> event, the event of the direct transmission at
  100% with all bytes uploaded and the speed computed from the elapsed time, the
  \<open>processing\<close> event, and the \<open>completed\<close> event at 100%.
\<close>

theorem direct_upload_progress:
  assumes "length bl \<le> 2 * chunkSize (uploadConfig s)"
    and "authUser env = Some user" and "calm env" and "storageUpload env = Stored"
    and "polite s"
  shows "chooseStrategy (uploadConfig s) bl = Direct
       \<and> (\<exists>res s' e1 e2 e3 e4 e5.
            uploadVideo env bl filename (Some cb) s = Some (Inr res, s') \<and> success res
            \<and> new_events s s' = [(cb, e1), (cb, e2), (cb, e3), (cb, e4), (cb, e5)]
            \<and> status e1 = Pending \<and> percentage e1 = 0 \<and> bytesUploaded e1 = 0
            \<and> totalBytes e1 = length bl
            \<and> status e2 = Uploading
            \<and> percentage e3 = 100 \<and> bytesUploaded e3 = length bl
            \<and> speed e3 = js_div (Num (of_nat (length bl))) (Num (of_nat (directMillis env) / 1000))
            \<and> estimatedTimeRemaining e3 = Num 0
            \<and> status e4 = Processing
            \<and> status e5 = Completed \<and> percentage e5 = 100)"
proof -
  have st: "chooseStrategy (uploadConfig s) bl = Direct"
    using assms(1) by (simp add: chooseStrategy_def)
  have r: "reaction s c h e = None" for c h e using assms(5) by (simp add: polite_def)
  let ?uid = "generatedUploadId env"
  let ?e1 = "currentProgress ?uid (initial_update ?uid bl)"
  let ?e2 = "currentProgress ?uid (no_updates\<lparr>u_status := Some Uploading\<rparr>)"
  let ?e3 = "currentProgress ?uid (direct_update env bl)"
  let ?e4 = "currentProgress ?uid (no_updates\<lparr>u_status := Some Processing\<rparr>)"
  let ?e5 = "currentProgress ?uid (no_updates\<lparr>u_status := Some Completed, u_percentage := Some 100\<rparr>)"
  have run: "\<exists>res s'. uploadVideo env bl filename (Some cb) s = Some (Inr res, s') \<and> success res
            \<and> new_events s s' = [(cb, ?e1), (cb, ?e2), (cb, ?e3), (cb, ?e4), (cb, ?e5)]"
    using assms(2,4) st
    by (simp add: uploadVideo_def try_upload_def run_strategy_def complete_upload_def directUpload_def
        Let_def at_await_calm[OF assms(3)] updateProgress_def cleanup_def new_events_def r)
  have f: "status ?e1 = Pending" "percentage ?e1 = 0" "bytesUploaded ?e1 = 0" "totalBytes ?e1 = length bl"
    "status ?e2 = Uploading" "percentage ?e3 = 100" "bytesUploaded ?e3 = length bl"
    "speed ?e3 = js_div (Num (of_nat (length bl))) (Num (of_nat (directMillis env) / 1000))"
    "estimatedTimeRemaining ?e3 = Num 0"
    "status ?e4 = Processing" "status ?e5 = Completed" "percentage ?e5 = 100"
    by (simp_all add: currentProgress_def initial_update_def no_updates_def direct_update_def Let_def)
  from run obtain res s' where u: "uploadVideo env bl filename (Some cb) s = Some (Inr res, s')"
    and ok: "success res"
    and ev: "new_events s s' = [(cb, ?e1), (cb, ?e2), (cb, ?e3), (cb, ?e4), (cb, ?e5)]"
    by (elim exE conjE)
  have "\<exists>res s' e1 e2 e3 e4 e5.
            uploadVideo env bl filename (Some cb) s = Some (Inr res, s') \<and> success res
            \<and> new_events s s' = [(cb, e1), (cb, e2), (cb, e3), (cb, e4), (cb, e5)]
            \<and> status e1 = Pending \<and> percentage e1 = 0 \<and> bytesUploaded e1 = 0
            \<and> totalBytes e1 = length bl
            \<and> status e2 = Uploading
            \<and> percentage e3 = 100 \<and> bytesUploaded e3 = length bl
            \<and> speed e3 = js_div (Num (of_nat (length bl))) (Num (of_nat (directMillis env) / 1000))
            \<and> estimatedTimeRemaining e3 = Num 0
            \<and> status e4 = Processing
            \<and> status e5 = Completed \<and> percentage e5 = 100"
    by (intro exI[of _ res] exI[of _ s'] exI[of _ ?e1] exI[of _ ?e2] exI[of _ ?e3] exI[of _ ?e4]
        exI[of _ ?e5] conjI u ok ev f)
  with st show ?thesis by (rule conjI)
qed

theorem direct_upload_progress_witness:
  "length ''abc'' \<le> 2 * chunkSize (uploadConfig small_service)
   \<and> authUser calm_env = Some ''u1'' \<and> calm calm_env \<and> storageUpload calm_env = Stored
   \<and> polite small_service
   \<and> chooseStrategy (uploadConfig small_service) ''abc'' = Direct
   \<and> (\<exists>res s' e1 e2 e3 e4 e5.
          uploadVideo calm_env ''abc'' ''clip.webm'' (Some 7) small_service = Some (Inr res, s')
          \<and> success res
          \<and> new_events small_service s' = [(7, e1), (7, e2), (7, e3), (7, e4), (7, e5)]
          \<and> percentage e1 = 0 \<and> totalBytes e1 = 3 \<and> status e2 = Uploading
          \<and> percentage e3 = 100 \<and> bytesUploaded e3 = 3 \<and> speed e3 = Num 60
          \<and> status e4 = Processing \<and> status e5 = Completed \<and> percentage e5 = 100)"
proof -
  have h1: "length ''abc'' \<le> 2 * chunkSize (uploadConfig small_service)"
    by (simp add: small_service_def new_VideoUploadService_def)
  have h2: "authUser calm_env = Some ''u1''" and h4: "storageUpload calm_env = Stored"
    and ms: "directMillis calm_env = 50"
    by (simp_all add: calm_env_def)
  have h3: "calm calm_env" by (rule calm_calm_env)
  have h5: "polite small_service"
    by (simp add: polite_def small_service_def new_VideoUploadService_def returns_def)
  note t = direct_upload_progress[OF h1 h2 h3 h4 h5, of "''clip.webm''" 7]
  from t have c: "chooseStrategy (uploadConfig small_service) ''abc'' = Direct" by (rule conjunct1)
  from t[THEN conjunct2] have "\<exists>res s' e1 e2 e3 e4 e5.
          uploadVideo calm_env ''abc'' ''clip.webm'' (Some 7) small_service = Some (Inr res, s')
          \<and> success res
          \<and> new_events small_service s' = [(7, e1), (7, e2), (7, e3), (7, e4), (7, e5)]
          \<and> percentage e1 = 0 \<and> totalBytes e1 = 3 \<and> status e2 = Uploading
          \<and> percentage e3 = 100 \<and> bytesUploaded e3 = 3 \<and> speed e3 = Num 60
          \<and> status e4 = Processing \<and> status e5 = Completed \<and> percentage e5 = 100"
    by (elim exE conjE, intro exI conjI) (assumption | simp add: ms)+
  with h1 h2 h3 h4 h5 c show ?thesis by (intro conjI)
qed

text \<open>
  C2 as stated fails: a three-byte blob with a chunk size of two bytes is uploaded
  directly, and the callback receives five events, not two.
\<close>

theorem direct_upload_five_events_counterexample:
  "length ''abc'' \<le> 2 * chunkSize (uploadConfig small_service)
   \<and> length (delivered_after (uploadVideo calm_env ''abc'' ''clip.webm'' (Some 7) small_service)) = 5
   \<and> map (status \<circ> snd)
        (delivered_after (uploadVideo calm_env ''abc'' ''clip.webm'' (Some 7) small_service))
       = [Pending, Uploading, Pending, Processing, Completed]"
  by (simp add: delivered_after_def small_service_def calm_env_def upload_run_defs)

text \<open>
  C3. The percentages delivered over a whole chunked upload are meant to be
  non-decreasing. They are not. For a five-byte blob and a chunk size of two bytes, with
  an authenticated user, a storage call that succeeds, no cancellation and a callback
  that returns, the chunked strategy is selected and the simulated chunks bring the
  percentage to 100; the \<open>processing\<close> event that follows reports 0, because
  \<open>updateProgress\<close> keeps no progress and fills the percentage that the update omits
  with its default.
\<close>

theorem chunked_upload_percentage_falls:
  "length ''abcde'' > 2 * chunkSize (uploadConfig small_service)
   \<and> chooseStrategy (uploadConfig small_service) ''abcde'' = Chunked
   \<and> map (percentage \<circ> snd)
        (delivered_after (uploadVideo calm_env ''abcde'' ''clip.webm'' (Some 7) small_service))
       = [0, 0, 40, 80, 100, 0, 100]
   \<and> map (status \<circ> snd)
        (delivered_after (uploadVideo calm_env ''abcde'' ''clip.webm'' (Some 7) small_service))
       = [Pending, Uploading, Pending, Pending, Pending, Processing, Completed]"
  by (simp add: delivered_after_def small_service_def calm_env_def upload_run_defs)


end
